theory Spec2Isabelle
  imports Main "HOL-Library.Word"
begin

section \<open>The alarm facility of coreinit (coreinit\_alarm.cpp)\<close>

text \<open>
  A shallow embedding of \<^verbatim>\<open>src/modules/coreinit/coreinit_alarm.cpp\<close>. Every function
  of the file is a HOL function on an explicit kernel state. Guest memory holding the alarm
  records is a function from alarm pointers to records, the array \<^verbatim>\<open>gAlarmQueue\<close> is a
  function from core numbers to queue contents, and the calls that the file makes on its
  collaborators (spin lock, scheduler, queue templates, callbacks) are appended to a trace.
\<close>

subsection \<open>Data\<close>

type_synonym OSTime = "64 word"
type_synonym ptr = "32 word"

text \<open>\<^verbatim>\<open>enum class OSAlarmState\<close>: the source names its values None, Set and Cancelled
  (Inactive, Armed and Cancelled in the specification).\<close>

datatype OSAlarmState = OSAlarmState_None | OSAlarmState_Set | OSAlarmState_Cancelled

text \<open>
  The record \<^verbatim>\<open>OSAlarm\<close>. Pointers to objects that this file never looks into (name,
  callback, context, user data) are 32-bit guest addresses, 0 being \<^verbatim>\<open>nullptr\<close>. The
  pointer \<^verbatim>\<open>alarmQueue\<close> is \<open>Some c\<close> for \<^verbatim>\<open>gAlarmQueue[c]\<close> and \<open>None\<close> for
  \<^verbatim>\<open>nullptr\<close>. The thread queue is the list of the threads sleeping on the alarm. The
  intrusive \<^verbatim>\<open>link\<close> field is represented by the position of the alarm in the queue
  contents below.
\<close>

record OSAlarm =
  tag :: "32 word"
  name :: ptr
  callback :: ptr
  alarmTag :: "32 word"
  userData :: ptr
  state :: OSAlarmState
  nextFire :: OSTime
  period :: OSTime
  alarm_context :: ptr
  alarmQueue :: "nat option"
  threadQueue :: "nat list"

text \<open>A point of the host clock, as passed to the interrupt controller;
  \<open>TimePoint_max\<close> is \<^verbatim>\<open>time_point::max()\<close>, the value that disarms the timer.\<close>

datatype time_point = TimePoint int | TimePoint_max

text \<open>Calls on collaborators, in the order in which they are made.\<close>

datatype event =
    AlarmLock_Acquire
  | AlarmLock_Release
  | Scheduler_Lock
  | Scheduler_Unlock
  | Queue_Erase nat nat
  | Queue_Append nat nat
  | Thread_Wakeup nat
  | Thread_Sleep nat nat
  | Reschedule nat
  | Callback ptr nat ptr

text \<open>
  The kernel state: alarm records by address, the contents of the per-core queues, the
  threads that are suspended, the interrupt timer of each core, and the trace. The clock is
  an oracle: \<open>clock s k\<close> is the value that the \<open>k\<close>-th call of \<^verbatim>\<open>OSGetTime\<close> returns, and
  \<open>reads s\<close> counts the calls made so far.
\<close>

record kernel =
  alarms :: "nat \<Rightarrow> OSAlarm"
  gAlarmQueue :: "nat \<Rightarrow> nat list"
  waiting :: "nat set"
  interruptTimer :: "nat \<Rightarrow> time_point"
  clock :: "nat \<Rightarrow> OSTime"
  reads :: nat
  trace :: "event list"

datatype fault = AssertionFailed | NullPointer

subsection \<open>Collaborators\<close>

text \<open>Modelled from the spec: \<^verbatim>\<open>coreinit_core.h\<close> is not part of the source tree; the
  number of emulated cores, each with its own alarm queue. The cancel-by-tag loop of the
  source uses the literal 3 for the same bound.\<close>

definition CoreCount :: nat where
  "CoreCount = 3"

text \<open>Modelled from the spec: \<^verbatim>\<open>coreinit_alarm.h\<close> is not part of the source tree; the
  sentinel stamped into every initialised alarm record.\<close>

definition OSAlarm_Tag :: "32 word" where
  "OSAlarm_Tag = 0x614C724D"

text \<open>Modelled from the spec: \<^verbatim>\<open>coreinit_time.h\<close> is not part of the source tree; the
  clock adapter returns the current time in kernel units. Each call consumes one reading
  of the oracle.\<close>

definition OSGetTime :: "kernel \<Rightarrow> OSTime \<times> kernel" where
  "OSGetTime s = (clock s (reads s), s\<lparr>reads := Suc (reads s)\<rparr>)"

text \<open>Modelled from the spec: the conversion of kernel time (a signed 64-bit count) to
  the absolute-time representation of the interrupt controller; it keeps the order of
  times.\<close>

definition OSTimeToChrono :: "OSTime \<Rightarrow> time_point" where
  "OSTimeToChrono t = TimePoint (sint t)"

text \<open>\<^verbatim>\<open>operator<\<close> on time points.\<close>

fun time_point_less :: "time_point \<Rightarrow> time_point \<Rightarrow> bool" where
  "time_point_less (TimePoint a) (TimePoint b) = (a < b)"
| "time_point_less (TimePoint a) TimePoint_max = True"
| "time_point_less TimePoint_max _ = False"

definition emit :: "event \<Rightarrow> kernel \<Rightarrow> kernel" where
  "emit e s = s\<lparr>trace := trace s @ [e]\<rparr>"

text \<open>A store through an alarm pointer.\<close>

definition upd :: "nat \<Rightarrow> (OSAlarm \<Rightarrow> OSAlarm) \<Rightarrow> kernel \<Rightarrow> kernel" where
  "upd a f s = s\<lparr>alarms := (alarms s)(a := f (alarms s a))\<rparr>"

text \<open>Modelled from the spec: \<^verbatim>\<open>coreinit_queue.h\<close> is not part of the source tree. A
  per-core queue is an intrusive, insertion-ordered list of alarms; it is represented by
  the list of its members from head to tail. Unlinking removes the alarm from the
  members, linking appends it at the tail.\<close>

definition OSEraseFromQueue :: "nat \<Rightarrow> nat \<Rightarrow> kernel \<Rightarrow> kernel" where
  "OSEraseFromQueue q a s =
     emit (Queue_Erase q a) (s\<lparr>gAlarmQueue := (gAlarmQueue s)(q := removeAll a (gAlarmQueue s q))\<rparr>)"

definition OSAppendQueue :: "nat \<Rightarrow> nat \<Rightarrow> kernel \<Rightarrow> kernel" where
  "OSAppendQueue q a s =
     emit (Queue_Append q a) (s\<lparr>gAlarmQueue := (gAlarmQueue s)(q := gAlarmQueue s q @ [a])\<rparr>)"

text \<open>Modelled from the spec: the scheduler is not part of the source tree. Waking a
  thread queue resumes every thread in it and leaves it empty; sleeping suspends the calling
  thread on the queue. \<^verbatim>\<open>OSWakeupThread\<close> is the variant that takes the scheduler lock
  itself.\<close>

definition OSWakeupThreadNoLock :: "nat \<Rightarrow> kernel \<Rightarrow> kernel" where
  "OSWakeupThreadNoLock a s =
     emit (Thread_Wakeup a)
       (upd a (\<lambda>r. r\<lparr>threadQueue := []\<rparr>)
          (s\<lparr>waiting := waiting s - set (threadQueue (alarms s a))\<rparr>))"

definition OSWakeupThread :: "nat \<Rightarrow> kernel \<Rightarrow> kernel" where
  "OSWakeupThread a s = emit Scheduler_Unlock (OSWakeupThreadNoLock a (emit Scheduler_Lock s))"

definition OSSleepThreadNoLock :: "nat \<Rightarrow> nat \<Rightarrow> kernel \<Rightarrow> kernel" where
  "OSSleepThreadNoLock t a s =
     emit (Thread_Sleep t a)
       (upd a (\<lambda>r. r\<lparr>threadQueue := threadQueue r @ [t]\<rparr>)
          (s\<lparr>waiting := insert t (waiting s)\<rparr>))"

text \<open>Modelled from the spec: the interrupt controller is not part of the source tree;
  \<^verbatim>\<open>setInterruptTimer\<close> arms the virtual timer of a core for an absolute time.\<close>

definition setInterruptTimer :: "nat \<Rightarrow> time_point \<Rightarrow> kernel \<Rightarrow> kernel" where
  "setInterruptTimer core tp s = s\<lparr>interruptTimer := (interruptTimer s)(core := tp)\<rparr>"

subsection \<open>Cancellation\<close>

definition OSCancelAlarmNoLock :: "nat \<Rightarrow> kernel \<Rightarrow> bool \<times> kernel" where
  "OSCancelAlarmNoLock a s =
     (if state (alarms s a) \<noteq> OSAlarmState_Set then (False, s)
      else
        let s1 = upd a (\<lambda>r. r\<lparr>state := OSAlarmState_Cancelled, nextFire := 0, period := 0\<rparr>) s;
            s2 = (case alarmQueue (alarms s1 a) of
                    None \<Rightarrow> s1
                  | Some q \<Rightarrow> OSEraseFromQueue q a s1)
        in (True, OSWakeupThread a s2))"

definition OSCancelAlarm :: "nat \<Rightarrow> kernel \<Rightarrow> bool \<times> kernel" where
  "OSCancelAlarm a s =
     (let (r, s1) = OSCancelAlarmNoLock a (emit AlarmLock_Acquire s)
      in (r, emit AlarmLock_Release s1))"

text \<open>The inner loop of \<^verbatim>\<open>OSCancelAlarms\<close> over the members of one queue. The successor
  of an alarm is read before the alarm is cancelled, so the loop visits the members that
  the queue had when the loop started.\<close>

fun cancel_queue :: "32 word \<Rightarrow> nat list \<Rightarrow> kernel \<Rightarrow> kernel" where
  "cancel_queue t [] s = s"
| "cancel_queue t (a # as) s =
     cancel_queue t as
       (if alarmTag (alarms s a) = t then snd (OSCancelAlarmNoLock a s) else s)"

definition OSCancelAlarms :: "32 word \<Rightarrow> kernel \<Rightarrow> kernel" where
  "OSCancelAlarms t s =
     emit AlarmLock_Release
       (fold (\<lambda>i s'. cancel_queue t (gAlarmQueue s' i) s') [0..<3] (emit AlarmLock_Acquire s))"

subsection \<open>Creation and accessors\<close>

text \<open>\<^verbatim>\<open>memset(alarm, 0, sizeof(OSAlarm))\<close>. The source clears the link field of the
  record with the rest; queues being represented by their members, this has no counterpart
  here, and \<^verbatim>\<open>OSCreateAlarmEx\<close> below agrees with the source for an alarm that is in
  no queue when it is created.\<close>

definition zero_OSAlarm :: OSAlarm where
  "zero_OSAlarm =
     \<lparr>tag = 0, name = 0, callback = 0, alarmTag = 0, userData = 0,
      state = OSAlarmState_None, nextFire = 0, period = 0, alarm_context = 0,
      alarmQueue = None, threadQueue = []\<rparr>"

definition OSCreateAlarmEx :: "nat \<Rightarrow> ptr \<Rightarrow> kernel \<Rightarrow> kernel" where
  "OSCreateAlarmEx a nm s =
     upd a (\<lambda>r. r\<lparr>threadQueue := []\<rparr>)
       (upd a (\<lambda>r. r\<lparr>name := nm\<rparr>)
          (upd a (\<lambda>r. r\<lparr>tag := OSAlarm_Tag\<rparr>)
             (upd a (\<lambda>r. zero_OSAlarm) s)))"

definition OSCreateAlarm :: "nat \<Rightarrow> kernel \<Rightarrow> kernel" where
  "OSCreateAlarm a s = OSCreateAlarmEx a 0 s"

definition OSGetAlarmUserData :: "nat \<Rightarrow> kernel \<Rightarrow> ptr \<times> kernel" where
  "OSGetAlarmUserData a s = (userData (alarms s a), s)"

definition OSSetAlarmTag :: "nat \<Rightarrow> 32 word \<Rightarrow> kernel \<Rightarrow> kernel" where
  "OSSetAlarmTag a t s =
     emit AlarmLock_Release (upd a (\<lambda>r. r\<lparr>alarmTag := t\<rparr>) (emit AlarmLock_Acquire s))"

definition OSSetAlarmUserData :: "nat \<Rightarrow> ptr \<Rightarrow> kernel \<Rightarrow> kernel" where
  "OSSetAlarmUserData a d s =
     emit AlarmLock_Release (upd a (\<lambda>r. r\<lparr>userData := d\<rparr>) (emit AlarmLock_Acquire s))"

text \<open>\<^verbatim>\<open>OSInitAlarmQueue\<close> and \<^verbatim>\<open>CoreInit::initialiseAlarm\<close>: every queue starts
  empty.\<close>

definition OSInitAlarmQueue :: "nat \<Rightarrow> kernel \<Rightarrow> kernel" where
  "OSInitAlarmQueue q s = s\<lparr>gAlarmQueue := (gAlarmQueue s)(q := [])\<rparr>"

definition initialiseAlarm :: "kernel \<Rightarrow> kernel" where
  "initialiseAlarm s = fold OSInitAlarmQueue [0..<CoreCount] s"

subsection \<open>Arming\<close>

text \<open>The first argument is the value of \<^verbatim>\<open>OSGetCoreId()\<close>, the core that executes the
  call.\<close>

definition OSSetPeriodicAlarm ::
  "nat \<Rightarrow> nat \<Rightarrow> OSTime \<Rightarrow> OSTime \<Rightarrow> ptr \<Rightarrow> kernel \<Rightarrow> bool \<times> kernel" where
  "OSSetPeriodicAlarm core a start interval cb s =
     (let s0 = emit AlarmLock_Acquire s;
          s1 = upd a (\<lambda>r. r\<lparr>nextFire := start, callback := cb, period := interval,
                            alarm_context := 0, state := OSAlarmState_Set\<rparr>) s0;
          s2 = (case alarmQueue (alarms s1 a) of
                  None \<Rightarrow> s1
                | Some q \<Rightarrow> OSEraseFromQueue q a s1);
          s3 = upd a (\<lambda>r. r\<lparr>alarmQueue := Some core\<rparr>) s2;
          s4 = OSAppendQueue core a s3;
          s5 = setInterruptTimer core (OSTimeToChrono (nextFire (alarms s4 a))) s4
      in (True, emit AlarmLock_Release s5))"

definition OSSetAlarm :: "nat \<Rightarrow> nat \<Rightarrow> OSTime \<Rightarrow> ptr \<Rightarrow> kernel \<Rightarrow> bool \<times> kernel" where
  "OSSetAlarm core a time cb s =
     (let (now, s1) = OSGetTime s
      in OSSetPeriodicAlarm core a (now + time) 0 cb s1)"

subsection \<open>Waiting\<close>

text \<open>
  \<^verbatim>\<open>OSWaitAlarm\<close> is split at its suspension point \<^verbatim>\<open>OSRescheduleNoLock()\<close>. The first
  half runs up to that call: it fails the assertion, or returns at once (\<open>Some FALSE\<close>), or
  leaves the calling thread \<open>t\<close> suspended on the thread queue of the alarm (\<open>None\<close>). The
  second half runs when the thread has been woken and computes the return value. Alarm
  pointers are never null in this model, so \<^verbatim>\<open>assert(alarm)\<close> always holds.
\<close>

definition OSWaitAlarm_enter :: "nat \<Rightarrow> nat \<Rightarrow> kernel \<Rightarrow> fault + (bool option \<times> kernel)" where
  "OSWaitAlarm_enter t a s =
     (let s1 = emit AlarmLock_Acquire (emit Scheduler_Lock s)
      in if tag (alarms s1 a) \<noteq> OSAlarm_Tag then Inl AssertionFailed
         else if state (alarms s1 a) \<noteq> OSAlarmState_Set
         then Inr (Some False, emit Scheduler_Unlock (emit AlarmLock_Release s1))
         else Inr (None, emit (Reschedule t) (emit AlarmLock_Release (OSSleepThreadNoLock t a s1))))"

definition OSWaitAlarm_resume :: "nat \<Rightarrow> kernel \<Rightarrow> bool \<times> kernel" where
  "OSWaitAlarm_resume a s =
     (let s1 = emit AlarmLock_Acquire s;
          result = (state (alarms s1 a) \<noteq> OSAlarmState_Cancelled)
      in (result, emit Scheduler_Unlock (emit AlarmLock_Release s1)))"

subsection \<open>The trigger engine\<close>

text \<open>
  \<^verbatim>\<open>OSTriggerAlarmNoLock\<close>. The one-shot branch passes \<^verbatim>\<open>alarm->alarmQueue\<close> to the
  queue template without a null check; a null pointer there is a fault. The callback is
  guest code, called with the alarm lock released. Its call is recorded in the trace; what
  the guest code does then, which may be calls back into this facility, is not part of the
  model: calls made from inside a callback are not among the histories of \<open>run\<close> below,
  and the theorems on what one scan of \<^verbatim>\<open>OSCheckAlarms\<close> fires and on the timer it
  sets are stated for scans that call no callback (\<open>scan_runs_no_callback\<close>).
\<close>

definition OSTriggerAlarmNoLock :: "nat \<Rightarrow> ptr \<Rightarrow> kernel \<Rightarrow> fault + kernel" where
  "OSTriggerAlarmNoLock a ctx s =
     (let s1 = upd a (\<lambda>r. r\<lparr>alarm_context := ctx\<rparr>) s;
          r2 = (if period (alarms s1 a) \<noteq> 0
                then (let (t, s') = OSGetTime s1
                      in Inr (upd a (\<lambda>r. r\<lparr>nextFire := t + period r,
                                              state := OSAlarmState_Set\<rparr>) s'))
                else (let s' = upd a (\<lambda>r. r\<lparr>nextFire := 0, state := OSAlarmState_None\<rparr>) s1
                      in case alarmQueue (alarms s' a) of
                           None \<Rightarrow> Inl NullPointer
                         | Some q \<Rightarrow> Inr (OSEraseFromQueue q a s')))
      in case r2 of
           Inl e \<Rightarrow> Inl e
         | Inr s2 \<Rightarrow>
             let s3 = (if callback (alarms s2 a) \<noteq> 0
                       then emit AlarmLock_Acquire
                              (emit (Callback (callback (alarms s2 a)) a ctx)
                                 (emit AlarmLock_Release s2))
                       else s2)
             in Inr (OSWakeupThreadNoLock a s3))"

text \<open>The loop of \<^verbatim>\<open>OSCheckAlarms\<close> over the members of the queue, carrying the
  earliest fire time seen so far. As in the cancel loop, the successor is read before the
  alarm is triggered. The loop visits the members that the queue had when the scan
  started; this is the walk of the source as long as nothing but the scan itself changes
  the queue while it runs.\<close>

fun check_loop :: "ptr \<Rightarrow> OSTime \<Rightarrow> nat list \<Rightarrow> time_point \<Rightarrow> kernel \<Rightarrow> fault + (time_point \<times> kernel)" where
  "check_loop ctx now [] next s = Inr (next, s)"
| "check_loop ctx now (a # as) next s =
     (case (if word_sle (nextFire (alarms s a)) now \<and> state (alarms s a) \<noteq> OSAlarmState_Cancelled
            then OSTriggerAlarmNoLock a ctx s else Inr s) of
        Inl e \<Rightarrow> Inl e
      | Inr s1 \<Rightarrow>
          check_loop ctx now as
            (if state (alarms s1 a) = OSAlarmState_Set \<and> nextFire (alarms s1 a) \<noteq> 0
                \<and> time_point_less (OSTimeToChrono (nextFire (alarms s1 a))) next
             then OSTimeToChrono (nextFire (alarms s1 a)) else next)
            s1)"

definition OSCheckAlarms :: "nat \<Rightarrow> ptr \<Rightarrow> kernel \<Rightarrow> fault + kernel" where
  "OSCheckAlarms core ctx s =
     (let (now, s1) = OSGetTime s;
          s2 = emit AlarmLock_Acquire (emit Scheduler_Lock s1)
      in case check_loop ctx now (gAlarmQueue s2 core) TimePoint_max s2 of
           Inl e \<Rightarrow> Inl e
         | Inr (next, s3) \<Rightarrow>
             Inr (setInterruptTimer core next
                    (emit Scheduler_Unlock (emit AlarmLock_Release s3))))"

subsection \<open>Sequences of calls\<close>

text \<open>The entry points as a datatype, so that a history of the facility is a list of
  calls. Core numbers are the executing core (or the core whose timer interrupt fired), and
  the two halves of \<^verbatim>\<open>OSWaitAlarm\<close> are separate steps.\<close>

datatype call =
    Call_CreateAlarmEx nat ptr
  | Call_SetAlarm nat nat OSTime ptr
  | Call_SetPeriodicAlarm nat nat OSTime OSTime ptr
  | Call_CancelAlarm nat
  | Call_CancelAlarms "32 word"
  | Call_SetAlarmTag nat "32 word"
  | Call_SetAlarmUserData nat ptr
  | Call_GetAlarmUserData nat
  | Call_CheckAlarms nat ptr
  | Call_WaitAlarm_enter nat nat
  | Call_WaitAlarm_resume nat

fun exec :: "call \<Rightarrow> kernel \<Rightarrow> fault + kernel" where
  "exec (Call_CreateAlarmEx a nm) s = Inr (OSCreateAlarmEx a nm s)"
| "exec (Call_SetAlarm core a d cb) s = Inr (snd (OSSetAlarm core a d cb s))"
| "exec (Call_SetPeriodicAlarm core a st iv cb) s = Inr (snd (OSSetPeriodicAlarm core a st iv cb s))"
| "exec (Call_CancelAlarm a) s = Inr (snd (OSCancelAlarm a s))"
| "exec (Call_CancelAlarms t) s = Inr (OSCancelAlarms t s)"
| "exec (Call_SetAlarmTag a t) s = Inr (OSSetAlarmTag a t s)"
| "exec (Call_SetAlarmUserData a d) s = Inr (OSSetAlarmUserData a d s)"
| "exec (Call_GetAlarmUserData a) s = Inr (snd (OSGetAlarmUserData a s))"
| "exec (Call_CheckAlarms core ctx) s = OSCheckAlarms core ctx s"
| "exec (Call_WaitAlarm_enter t a) s =
     (case OSWaitAlarm_enter t a s of Inl e \<Rightarrow> Inl e | Inr (r, s') \<Rightarrow> Inr s')"
| "exec (Call_WaitAlarm_resume a) s = Inr (snd (OSWaitAlarm_resume a s))"

fun run :: "call list \<Rightarrow> kernel \<Rightarrow> fault + kernel" where
  "run [] s = Inr s"
| "run (x # xs) s = (case exec x s of Inl e \<Rightarrow> Inl e | Inr s' \<Rightarrow> run xs s')"

text \<open>Whether a call arms the alarm \<open>a\<close>.\<close>

fun arms :: "nat \<Rightarrow> call \<Rightarrow> bool" where
  "arms a (Call_SetAlarm core b d cb) = (b = a)"
| "arms a (Call_SetPeriodicAlarm core b st iv cb) = (b = a)"
| "arms a _ = False"

text \<open>The queues that an alarm is a member of, and being linked into exactly one.\<close>

definition queues_of :: "kernel \<Rightarrow> nat \<Rightarrow> nat list" where
  "queues_of s a = filter (\<lambda>c. a \<in> set (gAlarmQueue s c)) [0..<CoreCount]"

definition linked :: "kernel \<Rightarrow> nat \<Rightarrow> bool" where
  "linked s a \<longleftrightarrow> length (queues_of s a) = 1"

text \<open>
  The calls that respect the contract of the facility: a core number is the number of a
  core, and the storage of an alarm is (re)initialised only while the alarm is in no queue.
\<close>

fun permitted :: "call \<Rightarrow> kernel \<Rightarrow> bool" where
  "permitted (Call_CreateAlarmEx a nm) s = (queues_of s a = [])"
| "permitted (Call_SetAlarm core a d cb) s = (core < CoreCount)"
| "permitted (Call_SetPeriodicAlarm core a st iv cb) s = (core < CoreCount)"
| "permitted (Call_CheckAlarms core ctx) s = (core < CoreCount)"
| "permitted _ s = True"

fun admissible :: "call list \<Rightarrow> kernel \<Rightarrow> bool" where
  "admissible [] s = True"
| "admissible (x # xs) s =
     (permitted x s \<and> (case exec x s of Inl e \<Rightarrow> True | Inr s' \<Rightarrow> admissible xs s'))"

text \<open>
  Well-formed states: the back-reference of a queue member names the queue it is in, which
  is the queue of a core; no alarm is twice in a queue; the alarms in state Set are the
  queue members; an alarm in another state has no fire time and no period.
\<close>

definition wf :: "kernel \<Rightarrow> bool" where
  "wf s \<longleftrightarrow>
     (\<forall>c a. a \<in> set (gAlarmQueue s c) \<longrightarrow> alarmQueue (alarms s a) = Some c \<and> c < CoreCount)
   \<and> (\<forall>c. distinct (gAlarmQueue s c))
   \<and> (\<forall>a. state (alarms s a) = OSAlarmState_Set \<longrightarrow> (\<exists>c. a \<in> set (gAlarmQueue s c)))
   \<and> (\<forall>a. state (alarms s a) \<noteq> OSAlarmState_Set \<longrightarrow>
          (\<forall>c. a \<notin> set (gAlarmQueue s c)) \<and> nextFire (alarms s a) = 0 \<and> period (alarms s a) = 0)"

text \<open>The calls on the alarm lock in a trace.\<close>

definition lock_events :: "event list \<Rightarrow> event list" where
  "lock_events tr = filter (\<lambda>e. e = AlarmLock_Acquire \<or> e = AlarmLock_Release) tr"

text \<open>The record of an alarm after a successful cancel, and after the trigger engine
  has fired it at clock reading \<open>t\<close>.\<close>

definition cancelled :: "OSAlarm \<Rightarrow> OSAlarm" where
  "cancelled r = r\<lparr>state := OSAlarmState_Cancelled, nextFire := 0, period := 0, threadQueue := []\<rparr>"

definition fired :: "ptr \<Rightarrow> OSTime \<Rightarrow> OSAlarm \<Rightarrow> OSAlarm" where
  "fired ctx t r =
     (if period r \<noteq> 0
      then r\<lparr>alarm_context := ctx, nextFire := t + period r, state := OSAlarmState_Set,
             threadQueue := []\<rparr>
      else r\<lparr>alarm_context := ctx, nextFire := 0, state := OSAlarmState_None,
             threadQueue := []\<rparr>)"

text \<open>The state in which the scan of \<^verbatim>\<open>OSCheckAlarms\<close> starts: the time has been
  read and both locks are held.\<close>

definition check_start :: "kernel \<Rightarrow> kernel" where
  "check_start s = emit AlarmLock_Acquire (emit Scheduler_Lock (snd (OSGetTime s)))"





text \<open>What a pass of cancel-by-tag has done to one alarm, relative to the state s0 before.\<close>

definition cancel_rel :: "32 word \<Rightarrow> kernel \<Rightarrow> nat \<Rightarrow> kernel \<Rightarrow> bool" where
  "cancel_rel t s0 b s \<longleftrightarrow>
     waiting s \<subseteq> waiting s0 \<and>
     (alarms s b = alarms s0 b \<or>
      (state (alarms s0 b) = OSAlarmState_Set \<and> alarmTag (alarms s0 b) = t
       \<and> alarms s b = cancelled (alarms s0 b)
       \<and> set (threadQueue (alarms s0 b)) \<inter> waiting s = {}))"

text \<open>While cancel-by-tag works through the queues: an alarm with the tag that is still
  in state Set is in a queue that has not been scanned yet.\<close>

definition tag_pending :: "32 word \<Rightarrow> nat \<Rightarrow> nat \<Rightarrow> kernel \<Rightarrow> bool" where
  "tag_pending t b i s \<longleftrightarrow>
     wf s \<and> alarmTag (alarms s b) = t \<and>
     (state (alarms s b) = OSAlarmState_Set \<longrightarrow> (\<exists>c\<ge>i. c < 3 \<and> b \<in> set (gAlarmQueue s c)))"

text \<open>An alarm that is not armed and has no period.\<close>

definition idle :: "nat \<Rightarrow> kernel \<Rightarrow> bool" where
  "idle a s \<longleftrightarrow> state (alarms s a) \<noteq> OSAlarmState_Set \<and> period (alarms s a) = 0"

subsection \<open>Example states\<close>

text \<open>After start-up: zeroed guest memory, empty queues, and a clock that starts at 100
  and advances by 5 between two readings.\<close>

definition boot :: kernel where
  "boot = \<lparr>alarms = (\<lambda>a. zero_OSAlarm), gAlarmQueue = (\<lambda>c. []), waiting = {},
           interruptTimer = (\<lambda>c. TimePoint_max), clock = (\<lambda>k. 100 + 5 * of_nat k),
           reads = 0, trace = []\<rparr>"

text \<open>Alarm 1 created and armed on core 0 as a one-shot alarm for time 150; alarm 2 is
  untouched memory.\<close>

definition armed1 :: kernel where
  "armed1 = snd (OSSetPeriodicAlarm 0 1 150 0 0 (OSCreateAlarm 1 boot))"

text \<open>Histories from start-up: a periodic and a one-shot alarm on core 0, both due at
  the first clock reading, each with thread 7 waiting on it; a periodic alarm whose period
  is the negative of the second clock reading; and three alarms on three cores, two of
  them with tag 7 and one with tag 9.\<close>

definition periodic1 :: kernel where
  "periodic1 = projr (run [Call_CreateAlarmEx 1 0, Call_SetPeriodicAlarm 0 1 50 10 0,
                           Call_WaitAlarm_enter 7 1] boot)"



definition tagged3 :: kernel where
  "tagged3 = projr (run [Call_CreateAlarmEx 1 0, Call_CreateAlarmEx 2 0, Call_CreateAlarmEx 3 0,
       Call_SetAlarmTag 1 7, Call_SetAlarmTag 2 7, Call_SetAlarmTag 3 9,
       Call_SetPeriodicAlarm 0 1 150 0 0, Call_SetPeriodicAlarm 1 2 160 0 0,
       Call_SetPeriodicAlarm 2 3 170 0 0] boot)"

text \<open>Alarm 1 of \<open>armed1\<close> cancelled, then a scan of core 0 and a change of its tag.\<close>

definition after_cancel :: kernel where
  "after_cancel = projr (run [Call_CheckAlarms 0 9, Call_SetAlarmTag 1 5]
                           (snd (OSCancelAlarm 1 armed1)))"

section \<open>Basic facts\<close>

lemmas prim_defs = emit_def upd_def OSEraseFromQueue_def OSAppendQueue_def
  OSWakeupThreadNoLock_def OSWakeupThread_def OSSleepThreadNoLock_def setInterruptTimer_def
  OSGetTime_def

lemmas run_defs = OSCreateAlarmEx_def OSSetPeriodicAlarm_def OSWaitAlarm_enter_def OSSetAlarmTag_def
  OSAlarm_Tag_def OSTimeToChrono_def boot_def zero_OSAlarm_def prim_defs Let_def

subsection \<open>Well-formed states\<close>

lemma wf_cong: "alarms s' = alarms s \<Longrightarrow> gAlarmQueue s' = gAlarmQueue s \<Longrightarrow> wf s' = wf s"
  by (simp add: wf_def)

lemma wf_emit [simp]: "wf (emit e s) = wf s"
  by (rule wf_cong) (simp_all add: emit_def)

lemma wfD_backref: "wf s \<Longrightarrow> a \<in> set (gAlarmQueue s c) \<Longrightarrow> alarmQueue (alarms s a) = Some c"
  by (simp add: wf_def)

lemma wfD_core: "wf s \<Longrightarrow> a \<in> set (gAlarmQueue s c) \<Longrightarrow> c < CoreCount"
  by (simp add: wf_def)

lemma wfD_distinct: "wf s \<Longrightarrow> distinct (gAlarmQueue s c)"
  by (simp add: wf_def)

lemma wfD_unique: "wf s \<Longrightarrow> a \<in> set (gAlarmQueue s c) \<Longrightarrow> a \<in> set (gAlarmQueue s c') \<Longrightarrow> c = c'"
  by (metis wfD_backref option.inject)

lemma wfD_Set: "wf s \<Longrightarrow> state (alarms s a) = OSAlarmState_Set \<Longrightarrow> \<exists>c. a \<in> set (gAlarmQueue s c)"
  by (simp add: wf_def)

lemma wfD_member: "wf s \<Longrightarrow> a \<in> set (gAlarmQueue s c) \<Longrightarrow> state (alarms s a) = OSAlarmState_Set"
  unfolding wf_def by blast

lemma wfD_idle: "wf s \<Longrightarrow> state (alarms s a) \<noteq> OSAlarmState_Set \<Longrightarrow>
    nextFire (alarms s a) = 0 \<and> period (alarms s a) = 0"
  by (simp add: wf_def)

lemma wfI:
  assumes "\<And>c a. a \<in> set (gAlarmQueue s c) \<Longrightarrow> alarmQueue (alarms s a) = Some c"
    and "\<And>c a. a \<in> set (gAlarmQueue s c) \<Longrightarrow> c < CoreCount"
    and "\<And>c. distinct (gAlarmQueue s c)"
    and "\<And>a. state (alarms s a) = OSAlarmState_Set \<Longrightarrow> \<exists>c. a \<in> set (gAlarmQueue s c)"
    and "\<And>a c. state (alarms s a) \<noteq> OSAlarmState_Set \<Longrightarrow> a \<notin> set (gAlarmQueue s c)"
    and "\<And>a. state (alarms s a) \<noteq> OSAlarmState_Set \<Longrightarrow> nextFire (alarms s a) = 0"
    and "\<And>a. state (alarms s a) \<noteq> OSAlarmState_Set \<Longrightarrow> period (alarms s a) = 0"
  shows "wf s"
  unfolding wf_def using assms by blast

lemma wf_boot: "wf boot"
  by (simp add: wf_def boot_def zero_OSAlarm_def)

lemma initialiseAlarm_queues:
  "gAlarmQueue (initialiseAlarm s) c = (if c < CoreCount then [] else gAlarmQueue s c)"
  by (simp add: initialiseAlarm_def CoreCount_def upt_rec OSInitAlarmQueue_def)

lemma initialiseAlarm_alarms: "alarms (initialiseAlarm s) = alarms s"
  by (simp add: initialiseAlarm_def CoreCount_def upt_rec OSInitAlarmQueue_def)

lemma wf_initialiseAlarm:
  assumes "\<And>a. alarms s a = zero_OSAlarm" and "\<And>c. CoreCount \<le> c \<Longrightarrow> gAlarmQueue s c = []"
  shows "wf (initialiseAlarm s)"
  by (rule wfI) (auto simp: initialiseAlarm_queues initialiseAlarm_alarms assms zero_OSAlarm_def
      split: if_splits)

lemma armed1_alarms:
  "alarms armed1 = (\<lambda>a. zero_OSAlarm)(1 := zero_OSAlarm\<lparr>tag := OSAlarm_Tag,
      state := OSAlarmState_Set, nextFire := 150, alarmQueue := Some 0\<rparr>)"
  by (simp add: armed1_def OSCreateAlarm_def run_defs)

lemma armed1_queue: "gAlarmQueue armed1 = (\<lambda>c. [])(0 := [1])"
  by (simp add: armed1_def OSCreateAlarm_def run_defs)

lemma wf_armed1: "wf armed1"
  by (simp add: wf_def armed1_alarms armed1_queue zero_OSAlarm_def CoreCount_def)

subsection \<open>Cancelling one alarm\<close>

lemma cancel_nolock_fail:
  "state (alarms s a) \<noteq> OSAlarmState_Set \<Longrightarrow> OSCancelAlarmNoLock a s = (False, s)"
  by (simp add: OSCancelAlarmNoLock_def)

lemma cancel_nolock_ok:
  assumes "state (alarms s a) = OSAlarmState_Set"
  shows "fst (OSCancelAlarmNoLock a s) = True"
    and "alarms (snd (OSCancelAlarmNoLock a s)) = (alarms s)(a := cancelled (alarms s a))"
    and "gAlarmQueue (snd (OSCancelAlarmNoLock a s)) =
           (case alarmQueue (alarms s a) of None \<Rightarrow> gAlarmQueue s
            | Some q \<Rightarrow> (gAlarmQueue s)(q := removeAll a (gAlarmQueue s q)))"
    and "waiting (snd (OSCancelAlarmNoLock a s)) = waiting s - set (threadQueue (alarms s a))"
    and "interruptTimer (snd (OSCancelAlarmNoLock a s)) = interruptTimer s"
    and "clock (snd (OSCancelAlarmNoLock a s)) = clock s"
    and "reads (snd (OSCancelAlarmNoLock a s)) = reads s"
    and "lock_events (trace (snd (OSCancelAlarmNoLock a s))) = lock_events (trace s)"
  using assms
  by (simp_all add: OSCancelAlarmNoLock_def prim_defs Let_def cancelled_def lock_events_def
      split: option.splits)

lemma wf_cancel_nolock: "wf s \<Longrightarrow> wf (snd (OSCancelAlarmNoLock a s))"
proof (cases "state (alarms s a) = OSAlarmState_Set")
  case False
  assume "wf s"
  with False show ?thesis by (simp add: cancel_nolock_fail)
next
  case True
  assume W: "wf s"
  from W True obtain q where q: "a \<in> set (gAlarmQueue s q)" by (auto simp: wf_def)
  with W have aq: "alarmQueue (alarms s a) = Some q" by (auto simp: wf_def)
  show ?thesis
    unfolding wf_def cancel_nolock_ok(2,3) [OF True] aq
    using W q aq by (auto simp: wf_def cancelled_def distinct_removeAll dest: wfD_unique [OF W])
qed

lemma cancel_fail:
  "state (alarms s a) \<noteq> OSAlarmState_Set \<Longrightarrow>
   OSCancelAlarm a s = (False, s\<lparr>trace := trace s @ [AlarmLock_Acquire, AlarmLock_Release]\<rparr>)"
  by (simp add: OSCancelAlarm_def OSCancelAlarmNoLock_def prim_defs)

lemma cancel_ok:
  "state (alarms s a) = OSAlarmState_Set \<Longrightarrow>
   fst (OSCancelAlarm a s) = True \<and>
   alarms (snd (OSCancelAlarm a s)) = (alarms s)(a := cancelled (alarms s a)) \<and>
   gAlarmQueue (snd (OSCancelAlarm a s)) =
     (case alarmQueue (alarms s a) of None \<Rightarrow> gAlarmQueue s
      | Some q \<Rightarrow> (gAlarmQueue s)(q := removeAll a (gAlarmQueue s q))) \<and>
   waiting (snd (OSCancelAlarm a s)) = waiting s - set (threadQueue (alarms s a))"
  by (simp add: OSCancelAlarm_def OSCancelAlarmNoLock_def prim_defs Let_def cancelled_def
      split: option.splits)

lemma wf_cancel: "wf s \<Longrightarrow> wf (snd (OSCancelAlarm a s))"
  by (simp add: OSCancelAlarm_def split_def Let_def wf_cancel_nolock)

subsection \<open>Arming and creating\<close>

lemma arm_fields:
  "fst (OSSetPeriodicAlarm core a st iv cb s) = True"
  "alarms (snd (OSSetPeriodicAlarm core a st iv cb s)) =
     (alarms s)(a := (alarms s a)\<lparr>nextFire := st, callback := cb, period := iv,
        alarm_context := 0, state := OSAlarmState_Set, alarmQueue := Some core\<rparr>)"
  "gAlarmQueue (snd (OSSetPeriodicAlarm core a st iv cb s)) =
     (case alarmQueue (alarms s a) of
        None \<Rightarrow> (gAlarmQueue s)(core := gAlarmQueue s core @ [a])
      | Some q \<Rightarrow> ((gAlarmQueue s)(q := removeAll a (gAlarmQueue s q)))
                   (core := ((gAlarmQueue s)(q := removeAll a (gAlarmQueue s q))) core @ [a]))"
  "interruptTimer (snd (OSSetPeriodicAlarm core a st iv cb s)) =
     (interruptTimer s)(core := OSTimeToChrono st)"
  "waiting (snd (OSSetPeriodicAlarm core a st iv cb s)) = waiting s"
  "clock (snd (OSSetPeriodicAlarm core a st iv cb s)) = clock s"
  "reads (snd (OSSetPeriodicAlarm core a st iv cb s)) = reads s"
  "trace (snd (OSSetPeriodicAlarm core a st iv cb s)) =
     trace s @ AlarmLock_Acquire #
       (case alarmQueue (alarms s a) of None \<Rightarrow> [] | Some q \<Rightarrow> [Queue_Erase q a])
       @ [Queue_Append core a, AlarmLock_Release]"
  by (simp_all add: OSSetPeriodicAlarm_def prim_defs Let_def split: option.splits)

lemma arm_member:
  assumes W: "wf s"
  shows "b \<in> set (gAlarmQueue (snd (OSSetPeriodicAlarm core a st iv cb s)) c)
         \<longleftrightarrow> (if b = a then c = core else b \<in> set (gAlarmQueue s c))"
proof (cases "alarmQueue (alarms s a)")
  case None
  with W have "\<And>c. a \<notin> set (gAlarmQueue s c)" by (auto simp: wf_def)
  then show ?thesis by (simp add: arm_fields None)
next
  case (Some q)
  with W have "\<And>c. c \<noteq> q \<Longrightarrow> a \<notin> set (gAlarmQueue s c)" by (auto simp: wf_def)
  then show ?thesis by (auto simp add: arm_fields Some)
qed

lemma arm_distinct:
  assumes W: "wf s"
  shows "distinct (gAlarmQueue (snd (OSSetPeriodicAlarm core a st iv cb s)) c)"
proof (cases "alarmQueue (alarms s a)")
  case None
  with W have "\<And>c. a \<notin> set (gAlarmQueue s c)" by (auto simp: wf_def)
  then show ?thesis using wfD_distinct [OF W] by (simp add: arm_fields None)
next
  case (Some q)
  with W have "\<And>c. c \<noteq> q \<Longrightarrow> a \<notin> set (gAlarmQueue s c)" by (auto simp: wf_def)
  then show ?thesis using wfD_distinct [OF W] by (auto simp add: arm_fields Some distinct_removeAll)
qed

lemma wf_arm:
  assumes W: "wf s" and C: "core < CoreCount"
  shows "wf (snd (OSSetPeriodicAlarm core a st iv cb s))"
proof (rule wfI)
  fix c b assume "b \<in> set (gAlarmQueue (snd (OSSetPeriodicAlarm core a st iv cb s)) c)"
  then have m: "if b = a then c = core else b \<in> set (gAlarmQueue s c)"
    by (simp only: arm_member [OF W])
  then show "alarmQueue (alarms (snd (OSSetPeriodicAlarm core a st iv cb s)) b) = Some c"
    using wfD_backref [OF W, of b c] by (auto simp: arm_fields(2) split: if_splits)
  from m show "c < CoreCount"
    using wfD_core [OF W, of b c] C by (auto split: if_splits)
next
  fix c show "distinct (gAlarmQueue (snd (OSSetPeriodicAlarm core a st iv cb s)) c)"
    by (rule arm_distinct [OF W])
next
  fix b assume "state (alarms (snd (OSSetPeriodicAlarm core a st iv cb s)) b) = OSAlarmState_Set"
  then show "\<exists>c. b \<in> set (gAlarmQueue (snd (OSSetPeriodicAlarm core a st iv cb s)) c)"
    using wfD_Set [OF W, of b] by (auto simp: arm_member [OF W] arm_fields(2) split: if_splits)
next
  fix b c assume "state (alarms (snd (OSSetPeriodicAlarm core a st iv cb s)) b) \<noteq> OSAlarmState_Set"
  then show "b \<notin> set (gAlarmQueue (snd (OSSetPeriodicAlarm core a st iv cb s)) c)"
    using wfD_member [OF W, of b c] by (auto simp: arm_member [OF W] arm_fields(2) split: if_splits)
next
  fix b assume "state (alarms (snd (OSSetPeriodicAlarm core a st iv cb s)) b) \<noteq> OSAlarmState_Set"
  then show "nextFire (alarms (snd (OSSetPeriodicAlarm core a st iv cb s)) b) = 0"
    using wfD_idle [OF W, of b] by (auto simp: arm_fields(2) split: if_splits)
next
  fix b assume "state (alarms (snd (OSSetPeriodicAlarm core a st iv cb s)) b) \<noteq> OSAlarmState_Set"
  then show "period (alarms (snd (OSSetPeriodicAlarm core a st iv cb s)) b) = 0"
    using wfD_idle [OF W, of b] by (auto simp: arm_fields(2) split: if_splits)
qed

lemma create_fields:
  "alarms (OSCreateAlarmEx a nm s) = (alarms s)(a := zero_OSAlarm\<lparr>tag := OSAlarm_Tag, name := nm\<rparr>)"
  "gAlarmQueue (OSCreateAlarmEx a nm s) = gAlarmQueue s"
  "waiting (OSCreateAlarmEx a nm s) = waiting s"
  "interruptTimer (OSCreateAlarmEx a nm s) = interruptTimer s"
  "clock (OSCreateAlarmEx a nm s) = clock s"
  "reads (OSCreateAlarmEx a nm s) = reads s"
  "trace (OSCreateAlarmEx a nm s) = trace s"
  by (simp_all add: OSCreateAlarmEx_def prim_defs zero_OSAlarm_def)

lemma wf_create:
  assumes W: "wf s" and N: "\<And>c. a \<notin> set (gAlarmQueue s c)"
  shows "wf (OSCreateAlarmEx a nm s)"
  unfolding wf_def create_fields
  using W N by (auto simp: wf_def zero_OSAlarm_def)

subsection \<open>Firing one alarm\<close>

lemma trigger_ok:
  assumes "alarmQueue (alarms s a) = Some q"
  shows "\<exists>s'. OSTriggerAlarmNoLock a ctx s = Inr s'
     \<and> alarms s' = (alarms s)(a := fired ctx (clock s (reads s)) (alarms s a))
     \<and> gAlarmQueue s' = (if period (alarms s a) \<noteq> 0 then gAlarmQueue s
                         else (gAlarmQueue s)(q := removeAll a (gAlarmQueue s q)))
     \<and> waiting s' = waiting s - set (threadQueue (alarms s a))
     \<and> interruptTimer s' = interruptTimer s
     \<and> clock s' = clock s
     \<and> reads s' = (if period (alarms s a) \<noteq> 0 then Suc (reads s) else reads s)
     \<and> trace s' = trace s @ (if period (alarms s a) \<noteq> 0 then [] else [Queue_Erase q a])
         @ (if callback (alarms s a) \<noteq> 0
            then [AlarmLock_Release, Callback (callback (alarms s a)) a ctx, AlarmLock_Acquire]
            else [])
         @ [Thread_Wakeup a]"
  using assms
  by (simp add: OSTriggerAlarmNoLock_def prim_defs Let_def fired_def)

subsection \<open>The cancel-by-tag loop\<close>

lemma upt_3: "[0..<3] = [0, 1, 2]"
  by (simp add: upt_rec)

lemma cancel_queue_inv:
  assumes step: "\<And>b s. P s \<Longrightarrow> alarmTag (alarms s b) = t \<Longrightarrow> P (snd (OSCancelAlarmNoLock b s))"
    and init: "P s"
  shows "P (cancel_queue t as s)"
  using init
proof (induction as arbitrary: s)
  case Nil
  then show ?case by simp
next
  case (Cons a as)
  show ?case
  proof (cases "alarmTag (alarms s a) = t")
    case True
    from step [OF Cons.prems True] have "P (snd (OSCancelAlarmNoLock a s))" .
    then have "P (cancel_queue t as (snd (OSCancelAlarmNoLock a s)))" by (rule Cons.IH)
    with True show ?thesis by simp
  next
    case False
    from Cons.prems have "P (cancel_queue t as s)" by (rule Cons.IH)
    with False show ?thesis by simp
  qed
qed

lemma OSCancelAlarms_inv:
  assumes step: "\<And>b s. P s \<Longrightarrow> alarmTag (alarms s b) = t \<Longrightarrow> P (snd (OSCancelAlarmNoLock b s))"
    and em: "\<And>e s. P s \<Longrightarrow> P (emit e s)"
    and init: "P s"
  shows "P (OSCancelAlarms t s)"
  unfolding OSCancelAlarms_def upt_3
  by (simp add: em init cancel_queue_inv [where P = P, OF step])

lemma cancel_nolock_alarms:
  "alarms (snd (OSCancelAlarmNoLock a s)) =
     (if state (alarms s a) = OSAlarmState_Set then (alarms s)(a := cancelled (alarms s a))
      else alarms s)"
  by (simp add: cancel_nolock_fail cancel_nolock_ok)

lemma cancel_nolock_subset:
  "set (gAlarmQueue (snd (OSCancelAlarmNoLock a s)) c) \<subseteq> set (gAlarmQueue s c)"
  by (cases "state (alarms s a) = OSAlarmState_Set")
     (auto simp: cancel_nolock_fail cancel_nolock_ok split: option.splits if_splits)

lemma cancel_nolock_waiting:
  "waiting (snd (OSCancelAlarmNoLock a s)) =
     (if state (alarms s a) = OSAlarmState_Set then waiting s - set (threadQueue (alarms s a))
      else waiting s)"
  by (simp add: cancel_nolock_fail cancel_nolock_ok)

lemma cancel_nolock_lock_events:
  "lock_events (trace (snd (OSCancelAlarmNoLock a s))) = lock_events (trace s)"
  by (cases "state (alarms s a) = OSAlarmState_Set") (simp_all add: cancel_nolock_fail cancel_nolock_ok)

lemma cancel_rel_step:
  assumes P: "cancel_rel t s0 b s" and T: "alarmTag (alarms s a) = t"
  shows "cancel_rel t s0 b (snd (OSCancelAlarmNoLock a s))"
proof (cases "state (alarms s a) = OSAlarmState_Set")
  case False
  with P show ?thesis by (simp add: cancel_nolock_fail)
next
  case True
  show ?thesis
  proof (cases "a = b")
    case False
    with P True show ?thesis
      by (auto simp: cancel_rel_def cancel_nolock_alarms cancel_nolock_waiting)
  next
    case ab: True
    from P True ab have same: "alarms s b = alarms s0 b"
      by (auto simp: cancel_rel_def cancelled_def)
    with P True ab T show ?thesis
      by (auto simp: cancel_rel_def cancel_nolock_alarms cancel_nolock_waiting)
  qed
qed

lemma OSCancelAlarms_rel: "cancel_rel t s b (OSCancelAlarms t s)"
proof (rule OSCancelAlarms_inv [where P = "cancel_rel t s b"])
  show "cancel_rel t s b s" by (simp add: cancel_rel_def)
next
  fix a s' assume "cancel_rel t s b s'" "alarmTag (alarms s' a) = t"
  then show "cancel_rel t s b (snd (OSCancelAlarmNoLock a s'))" by (rule cancel_rel_step)
next
  fix e s' assume "cancel_rel t s b s'"
  then show "cancel_rel t s b (emit e s')" by (simp add: cancel_rel_def emit_def)
qed

lemma wf_OSCancelAlarms: "wf s \<Longrightarrow> wf (OSCancelAlarms t s)"
  by (rule OSCancelAlarms_inv [where P = wf]) (simp_all add: wf_cancel_nolock)

lemma OSCancelAlarms_subset: "set (gAlarmQueue (OSCancelAlarms t s) c) \<subseteq> set (gAlarmQueue s c)"
proof (rule OSCancelAlarms_inv [where P = "\<lambda>s'::kernel. set (gAlarmQueue s' c) \<subseteq> set (gAlarmQueue s c)"])
  fix b and s' :: kernel assume "set (gAlarmQueue s' c) \<subseteq> set (gAlarmQueue s c)"
  with cancel_nolock_subset [of b s' c]
  show "set (gAlarmQueue (snd (OSCancelAlarmNoLock b s')) c) \<subseteq> set (gAlarmQueue s c)" by blast
qed (simp_all add: emit_def)

lemma OSCancelAlarms_lock_events:
  "lock_events (trace (OSCancelAlarms t s)) = lock_events (trace s) @ [AlarmLock_Acquire, AlarmLock_Release]"
proof -
  have "\<And>as s. lock_events (trace (cancel_queue t as s)) = lock_events (trace s)"
  proof -
    fix as s show "lock_events (trace (cancel_queue t as s)) = lock_events (trace s)"
      by (rule cancel_queue_inv [where P = "\<lambda>s'::kernel. lock_events (trace s') = lock_events (trace s)"])
         (simp_all add: cancel_nolock_lock_events)
  qed
  then show ?thesis
    by (simp add: OSCancelAlarms_def upt_3 emit_def lock_events_def)
qed


lemma cancel_nolock_tag [simp]:
  "alarmTag (alarms (snd (OSCancelAlarmNoLock a s)) b) = alarmTag (alarms s b)"
  by (simp add: cancel_nolock_alarms cancelled_def)

lemma cancel_nolock_not_Set:
  "state (alarms s b) \<noteq> OSAlarmState_Set \<Longrightarrow>
   state (alarms (snd (OSCancelAlarmNoLock a s)) b) \<noteq> OSAlarmState_Set"
  by (simp add: cancel_nolock_alarms cancelled_def)

lemma cancel_nolock_self:
  "state (alarms (snd (OSCancelAlarmNoLock a s)) a) \<noteq> OSAlarmState_Set"
  by (simp add: cancel_nolock_alarms cancelled_def)

lemma cancel_queue_tag [simp]: "alarmTag (alarms (cancel_queue t as s) b) = alarmTag (alarms s b)"
  by (rule cancel_queue_inv [where P = "\<lambda>s'::kernel. alarmTag (alarms s' b) = alarmTag (alarms s b)"])
     simp_all

lemma cancel_queue_not_Set:
  "state (alarms s b) \<noteq> OSAlarmState_Set \<Longrightarrow> state (alarms (cancel_queue t as s) b) \<noteq> OSAlarmState_Set"
  by (rule cancel_queue_inv [where P = "\<lambda>s'::kernel. state (alarms s' b) \<noteq> OSAlarmState_Set"])
     (simp_all add: cancel_nolock_not_Set)

lemma cancel_queue_subset: "set (gAlarmQueue (cancel_queue t as s) c) \<subseteq> set (gAlarmQueue s c)"
proof (rule cancel_queue_inv [where P = "\<lambda>s'::kernel. set (gAlarmQueue s' c) \<subseteq> set (gAlarmQueue s c)"])
  fix b and s' :: kernel assume "set (gAlarmQueue s' c) \<subseteq> set (gAlarmQueue s c)"
  with cancel_nolock_subset [of b s' c]
  show "set (gAlarmQueue (snd (OSCancelAlarmNoLock b s')) c) \<subseteq> set (gAlarmQueue s c)" by blast
qed simp

lemma wf_cancel_queue: "wf s \<Longrightarrow> wf (cancel_queue t as s)"
  by (rule cancel_queue_inv [where P = wf]) (simp_all add: wf_cancel_nolock)

lemma cancel_queue_visit:
  "b \<in> set as \<Longrightarrow> alarmTag (alarms s b) = t \<Longrightarrow>
   state (alarms (cancel_queue t as s) b) \<noteq> OSAlarmState_Set"
proof (induction as arbitrary: s)
  case Nil
  then show ?case by simp
next
  case (Cons a as)
  show ?case
  proof (cases "b = a")
    case True
    with Cons.prems show ?thesis
      by (simp add: cancel_queue_not_Set cancel_nolock_self)
  next
    case False
    with Cons.prems have "b \<in> set as" by simp
    then show ?thesis using Cons.prems(2) by (simp add: Cons.IH)
  qed
qed

lemma cancel_pass:
  assumes K: "tag_pending t b i s"
  shows "tag_pending t b (Suc i) (cancel_queue t (gAlarmQueue s i) s)"
proof -
  let ?s' = "cancel_queue t (gAlarmQueue s i) s"
  from K have W: "wf s" and T: "alarmTag (alarms s b) = t"
    and Q: "state (alarms s b) = OSAlarmState_Set \<Longrightarrow> \<exists>c\<ge>i. c < 3 \<and> b \<in> set (gAlarmQueue s c)"
    by (auto simp: tag_pending_def)
  have W': "wf ?s'" using W by (rule wf_cancel_queue)
  have T': "alarmTag (alarms ?s' b) = t" using T by simp
  have "\<exists>c\<ge>Suc i. c < 3 \<and> b \<in> set (gAlarmQueue ?s' c)"
    if S': "state (alarms ?s' b) = OSAlarmState_Set"
  proof -
    from S' have "state (alarms s b) = OSAlarmState_Set" using cancel_queue_not_Set by blast
    from Q [OF this] obtain c where c: "i \<le> c" "c < 3" "b \<in> set (gAlarmQueue s c)" by blast
    have "c \<noteq> i"
    proof
      assume "c = i"
      with c have "b \<in> set (gAlarmQueue s i)" by simp
      from cancel_queue_visit [OF this T] S' show False by simp
    qed
    with c have ci: "Suc i \<le> c" by simp
    from wfD_Set [OF W' S'] obtain c' where c': "b \<in> set (gAlarmQueue ?s' c')" by blast
    with cancel_queue_subset have "b \<in> set (gAlarmQueue s c')" by blast
    with c W have "c' = c" by (auto dest: wfD_unique)
    with c' ci c show ?thesis by blast
  qed
  with W' T' show ?thesis by (simp add: tag_pending_def)
qed

lemma OSCancelAlarms_complete:
  assumes W: "wf s" and S: "state (alarms s b) = OSAlarmState_Set" and T: "alarmTag (alarms s b) = t"
  shows "state (alarms (OSCancelAlarms t s) b) \<noteq> OSAlarmState_Set"
proof -
  let ?s0 = "emit AlarmLock_Acquire s"
  let ?s1 = "cancel_queue t (gAlarmQueue ?s0 0) ?s0"
  let ?s2 = "cancel_queue t (gAlarmQueue ?s1 1) ?s1"
  let ?s3 = "cancel_queue t (gAlarmQueue ?s2 2) ?s2"
  from wfD_Set [OF W S] obtain c where c: "b \<in> set (gAlarmQueue s c)" by blast
  with W have "c < 3" by (auto dest: wfD_core simp: CoreCount_def)
  moreover have "wf ?s0" using W by simp
  moreover have "alarms ?s0 = alarms s" "gAlarmQueue ?s0 = gAlarmQueue s" by (simp_all add: emit_def)
  ultimately have "tag_pending t b 0 ?s0" using c T unfolding tag_pending_def by auto
  then have "tag_pending t b (Suc 0) ?s1" by (rule cancel_pass)
  then have "tag_pending t b (Suc (Suc 0)) ?s2" using cancel_pass [of t b "Suc 0" ?s1] by simp
  then have "tag_pending t b (Suc (Suc (Suc 0))) ?s3" using cancel_pass [of t b "Suc (Suc 0)" ?s2]
    by (simp add: numeral_2_eq_2)
  then have "state (alarms ?s3 b) \<noteq> OSAlarmState_Set"
    by (auto simp: tag_pending_def)
  then show ?thesis
    by (simp add: OSCancelAlarms_def upt_3 emit_def)
qed

subsection \<open>The scan of the trigger engine\<close>

lemma trigger_Inr:
  assumes "OSTriggerAlarmNoLock a ctx s = Inr s'"
  shows "alarms s' = (alarms s)(a := fired ctx (clock s (reads s)) (alarms s a))"
    and "period (alarms s a) \<noteq> 0 \<Longrightarrow> gAlarmQueue s' = gAlarmQueue s"
    and "period (alarms s a) = 0 \<Longrightarrow> \<exists>q. alarmQueue (alarms s a) = Some q
           \<and> gAlarmQueue s' = (gAlarmQueue s)(q := removeAll a (gAlarmQueue s q))"
    and "waiting s' = waiting s - set (threadQueue (alarms s a))"
    and "interruptTimer s' = interruptTimer s"
    and "clock s' = clock s"
    and "reads s' = (if period (alarms s a) \<noteq> 0 then Suc (reads s) else reads s)"
  using assms
  by (auto simp add: OSTriggerAlarmNoLock_def prim_defs Let_def fired_def split: option.splits if_splits)



lemma wf_trigger:
  assumes W: "wf s" and T: "OSTriggerAlarmNoLock a ctx s = Inr s'"
  shows "wf s'"
proof (cases "period (alarms s a) = 0")
  case False
  with W have S: "state (alarms s a) = OSAlarmState_Set" using wfD_idle by blast
  note A = trigger_Inr(1) [OF T] and Q = trigger_Inr(2) [OF T False]
  show ?thesis
    unfolding wf_def A Q
    using W S False by (auto simp: wf_def fired_def)
next
  case True
  from trigger_Inr(3) [OF T True] obtain q where aq: "alarmQueue (alarms s a) = Some q"
    and Q: "gAlarmQueue s' = (gAlarmQueue s)(q := removeAll a (gAlarmQueue s q))" by blast
  note A = trigger_Inr(1) [OF T]
  have nq: "\<And>c. c \<noteq> q \<Longrightarrow> a \<notin> set (gAlarmQueue s c)" using W aq by (auto simp: wf_def)
  show ?thesis
  proof (rule wfI)
    fix c b assume "b \<in> set (gAlarmQueue s' c)"
    then have m: "b \<in> set (gAlarmQueue s c)" "b \<noteq> a" using nq by (auto simp: Q split: if_splits)
    then show "alarmQueue (alarms s' b) = Some c" using wfD_backref [OF W] by (simp add: A)
    from m show "c < CoreCount" using wfD_core [OF W] by blast
  next
    fix c show "distinct (gAlarmQueue s' c)" using wfD_distinct [OF W] by (simp add: Q distinct_removeAll)
  next
    fix b assume "state (alarms s' b) = OSAlarmState_Set"
    then have "b \<noteq> a" "state (alarms s b) = OSAlarmState_Set"
      using True by (auto simp: A fired_def split: if_splits)
    with wfD_Set [OF W, of b] show "\<exists>c. b \<in> set (gAlarmQueue s' c)" by (auto simp: Q)
  next
    fix b c assume N: "state (alarms s' b) \<noteq> OSAlarmState_Set"
    show "b \<notin> set (gAlarmQueue s' c)"
    proof (cases "b = a")
      case True then show ?thesis using nq by (auto simp: Q)
    next
      case False
      with N have "state (alarms s b) \<noteq> OSAlarmState_Set" by (simp add: A)
      with W have "b \<notin> set (gAlarmQueue s c)" by (auto simp: wf_def)
      then show ?thesis by (auto simp: Q)
    qed
  next
    fix b assume N: "state (alarms s' b) \<noteq> OSAlarmState_Set"
    then show "nextFire (alarms s' b) = 0"
      using wfD_idle [OF W, of b] True by (auto simp: A fired_def split: if_splits)
    from N show "period (alarms s' b) = 0"
      using wfD_idle [OF W, of b] True by (auto simp: A fired_def split: if_splits)
  qed
qed

lemma check_loop_Cons:
  assumes "check_loop ctx now (a # as) next s = Inr r"
  obtains s1 where
    "if word_sle (nextFire (alarms s a)) now \<and> state (alarms s a) \<noteq> OSAlarmState_Cancelled
     then OSTriggerAlarmNoLock a ctx s = Inr s1 else s1 = s"
    and "check_loop ctx now as
            (if state (alarms s1 a) = OSAlarmState_Set \<and> nextFire (alarms s1 a) \<noteq> 0
                \<and> time_point_less (OSTimeToChrono (nextFire (alarms s1 a))) next
             then OSTimeToChrono (nextFire (alarms s1 a)) else next) s1 = Inr r"
  using assms by (auto split: sum.splits if_splits)

lemma check_loop_inv_aux:
  assumes step: "\<And>a s s1. P s \<Longrightarrow> a \<in> A \<Longrightarrow> OSTriggerAlarmNoLock a ctx s = Inr s1 \<Longrightarrow> P s1"
  shows "P s \<Longrightarrow> set as \<subseteq> A \<Longrightarrow> check_loop ctx now as next s = Inr (n', s') \<Longrightarrow> P s'"
proof (induction as arbitrary: s "next")
  case Nil
  then show ?case by simp
next
  case (Cons a as)
  from Cons.prems(3) obtain s1 where
    1: "if word_sle (nextFire (alarms s a)) now \<and> state (alarms s a) \<noteq> OSAlarmState_Cancelled
     then OSTriggerAlarmNoLock a ctx s = Inr s1 else s1 = s"
    and 2: "check_loop ctx now as
            (if state (alarms s1 a) = OSAlarmState_Set \<and> nextFire (alarms s1 a) \<noteq> 0
                \<and> time_point_less (OSTimeToChrono (nextFire (alarms s1 a))) next
             then OSTimeToChrono (nextFire (alarms s1 a)) else next) s1 = Inr (n', s')"
    by (rule check_loop_Cons)
  from Cons.prems(2) have aA: "a \<in> A" and sub: "set as \<subseteq> A" by auto
  have "P s1" using 1 Cons.prems(1) step [OF Cons.prems(1) aA] by (auto split: if_splits)
  from Cons.IH [OF this sub 2] show ?case .
qed

lemma check_loop_inv:
  assumes "\<And>a s s1. P s \<Longrightarrow> a \<in> set as \<Longrightarrow> OSTriggerAlarmNoLock a ctx s = Inr s1 \<Longrightarrow> P s1"
    and "P s" and "check_loop ctx now as next s = Inr (n', s')"
  shows "P s'"
  using check_loop_inv_aux [where P = P and A = "set as", OF assms(1) assms(2) subset_refl assms(3)]
  by simp




lemma wf_check_loop:
  assumes "wf s" and "check_loop ctx now as next s = Inr (n', s')"
  shows "wf s'"
  by (rule check_loop_inv [where P = wf, OF _ assms]) (rule wf_trigger)


lemma check_start_fields [simp]:
  "alarms (check_start s) = alarms s"
  "gAlarmQueue (check_start s) = gAlarmQueue s"
  "waiting (check_start s) = waiting s"
  "clock (check_start s) = clock s"
  "interruptTimer (check_start s) = interruptTimer s"
  "reads (check_start s) = Suc (reads s)"
  by (simp_all add: check_start_def prim_defs)

lemma wf_check_start [simp]: "wf (check_start s) = wf s"
  by (rule wf_cong) simp_all

lemma OSCheckAlarms_unfold:
  "OSCheckAlarms core ctx s =
     (case check_loop ctx (clock s (reads s)) (gAlarmQueue s core) TimePoint_max (check_start s) of
        Inl e \<Rightarrow> Inl e
      | Inr (n', s3) \<Rightarrow>
          Inr (setInterruptTimer core n' (emit Scheduler_Unlock (emit AlarmLock_Release s3))))"
  by (simp add: OSCheckAlarms_def check_start_def OSGetTime_def emit_def Let_def)

lemma OSCheckAlarms_Inr:
  assumes "OSCheckAlarms core ctx s = Inr s'"
  obtains n' s3 where
    "check_loop ctx (clock s (reads s)) (gAlarmQueue s core) TimePoint_max (check_start s) = Inr (n', s3)"
    and "alarms s' = alarms s3" and "gAlarmQueue s' = gAlarmQueue s3"
    and "waiting s' = waiting s3" and "reads s' = reads s3" and "clock s' = clock s3"
    and "interruptTimer s' = (interruptTimer s3)(core := n')"
proof (cases "check_loop ctx (clock s (reads s)) (gAlarmQueue s core) TimePoint_max (check_start s)")
  case (Inl e)
  with assms show ?thesis by (simp add: OSCheckAlarms_unfold)
next
  case (Inr r)
  obtain n' s3 where r: "r = (n', s3)" by (cases r)
  with Inr assms have s': "s' = setInterruptTimer core n' (emit Scheduler_Unlock (emit AlarmLock_Release s3))"
    by (simp add: OSCheckAlarms_unfold)
  show ?thesis
    by (rule that [of n' s3]) (simp_all add: Inr r s' prim_defs)
qed


lemma wf_OSCheckAlarms:
  assumes W: "wf s" and C: "OSCheckAlarms core ctx s = Inr s'"
  shows "wf s'"
proof -
  from C obtain n' s3 where
    L: "check_loop ctx (clock s (reads s)) (gAlarmQueue s core) TimePoint_max (check_start s) = Inr (n', s3)"
    and F: "alarms s' = alarms s3" "gAlarmQueue s' = gAlarmQueue s3"
    by (rule OSCheckAlarms_Inr)
  have "wf s3" by (rule wf_check_loop [OF _ L]) (simp add: W)
  with wf_cong [OF F] show ?thesis by simp
qed

lemma tp_irrefl [simp]: "\<not> time_point_less x x"
  by (cases x) simp_all









subsection \<open>Histories\<close>

lemma set_alarm_fields:
  "alarms (snd (OSSetAlarm core a d cb s)) =
     (alarms s)(a := (alarms s a)\<lparr>nextFire := clock s (reads s) + d, callback := cb, period := 0,
        alarm_context := 0, state := OSAlarmState_Set, alarmQueue := Some core\<rparr>)"
  "gAlarmQueue (snd (OSSetAlarm core a d cb s)) =
     gAlarmQueue (snd (OSSetPeriodicAlarm core a (clock s (reads s) + d) 0 cb s))"
  by (simp_all add: OSSetAlarm_def OSGetTime_def arm_fields split: option.splits)

lemma wf_set_alarm:
  assumes W: "wf s" and C: "core < CoreCount"
  shows "wf (snd (OSSetAlarm core a d cb s))"
proof -
  have "wf (snd (OSSetAlarm core a d cb s)) = wf (snd (OSSetPeriodicAlarm core a (clock s (reads s) + d) 0 cb s))"
    by (rule wf_cong) (simp_all add: set_alarm_fields arm_fields(2))
  with wf_arm [OF W C] show ?thesis by simp
qed

lemma wf_fields:
  assumes "gAlarmQueue s' = gAlarmQueue s"
    and "\<And>a. state (alarms s' a) = state (alarms s a)"
    and "\<And>a. nextFire (alarms s' a) = nextFire (alarms s a)"
    and "\<And>a. period (alarms s' a) = period (alarms s a)"
    and "\<And>a. alarmQueue (alarms s' a) = alarmQueue (alarms s a)"
  shows "wf s' = wf s"
  by (simp add: wf_def assms)

lemma wf_accessors:
  "wf (OSSetAlarmTag a t s) = wf s"
  "wf (OSSetAlarmUserData a d s) = wf s"
  "wf (snd (OSGetAlarmUserData a s)) = wf s"
  "wf (snd (OSWaitAlarm_resume a s)) = wf s"
  by (rule wf_fields; simp add: OSSetAlarmTag_def OSSetAlarmUserData_def OSGetAlarmUserData_def
      OSWaitAlarm_resume_def prim_defs Let_def)+

lemma wait_enter_Inr:
  assumes "OSWaitAlarm_enter t a s = Inr (r, s')"
  shows "gAlarmQueue s' = gAlarmQueue s"
    and "state (alarms s' b) = state (alarms s b)"
    and "nextFire (alarms s' b) = nextFire (alarms s b)"
    and "period (alarms s' b) = period (alarms s b)"
    and "alarmQueue (alarms s' b) = alarmQueue (alarms s b)"
  using assms
  by (auto simp: OSWaitAlarm_enter_def prim_defs Let_def split: if_splits)

lemma wf_wait_enter:
  assumes E: "OSWaitAlarm_enter t a s = Inr (r, s')" and W: "wf s"
  shows "wf s'"
proof -
  have "wf s' = wf s" by (rule wf_fields) (simp_all add: wait_enter_Inr [OF E])
  with W show ?thesis by simp
qed

lemma queues_of_Nil:
  assumes W: "wf s" and N: "queues_of s a = []"
  shows "a \<notin> set (gAlarmQueue s c)"
proof
  assume m: "a \<in> set (gAlarmQueue s c)"
  with W have "c < CoreCount" by (rule wfD_core)
  with m have "c \<in> set (queues_of s a)" by (simp add: queues_of_def)
  with N show False by simp
qed

lemma wf_exec:
  assumes W: "wf s" and P: "permitted c s" and E: "exec c s = Inr s'"
  shows "wf s'"
proof (cases c)
  case (Call_CreateAlarmEx a nm)
  with P have "queues_of s a = []" by simp
  from wf_create [OF W queues_of_Nil [OF W this]] E Call_CreateAlarmEx show ?thesis by auto
next
  case (Call_SetAlarm core a d cb)
  with P E wf_set_alarm [OF W] show ?thesis by auto
next
  case (Call_SetPeriodicAlarm core a st iv cb)
  with P E wf_arm [OF W] show ?thesis by auto
next
  case (Call_CancelAlarm a)
  with E wf_cancel [OF W] show ?thesis by auto
next
  case (Call_CancelAlarms t)
  with E wf_OSCancelAlarms [OF W] show ?thesis by auto
next
  case (Call_SetAlarmTag a t)
  with E W show ?thesis by (auto simp: wf_accessors)
next
  case (Call_SetAlarmUserData a d)
  with E W show ?thesis by (auto simp: wf_accessors)
next
  case (Call_GetAlarmUserData a)
  with E W show ?thesis by (auto simp: wf_accessors)
next
  case (Call_CheckAlarms core ctx)
  with E wf_OSCheckAlarms [OF W] show ?thesis by auto
next
  case (Call_WaitAlarm_enter t a)
  with E obtain r where "OSWaitAlarm_enter t a s = Inr (r, s')"
    by (auto split: sum.splits)
  then show ?thesis using W by (rule wf_wait_enter)
next
  case (Call_WaitAlarm_resume a)
  with E W show ?thesis by (auto simp: wf_accessors)
qed

lemma wf_run:
  "wf s \<Longrightarrow> admissible cs s \<Longrightarrow> run cs s = Inr s' \<Longrightarrow> wf s'"
proof (induction cs arbitrary: s)
  case Nil
  then show ?case by simp
next
  case (Cons c cs)
  from Cons.prems(3) obtain s1 where E: "exec c s = Inr s1" and R: "run cs s1 = Inr s'"
    by (auto split: sum.splits)
  from Cons.prems(2) E have P: "permitted c s" and A: "admissible cs s1" by simp_all
  from wf_exec [OF Cons.prems(1) P E] have "wf s1" .
  from Cons.IH [OF this A R] show ?case .
qed

lemma length_filter_upt_unique:
  assumes "c0 < n" and "\<And>c. c < n \<Longrightarrow> P c \<longleftrightarrow> c = c0"
  shows "filter P [0..<n] = [c0]"
proof -
  have "filter P [0..<n] = filter (\<lambda>c. c = c0) [0..<n]"
    using assms(2) by (intro filter_cong) auto
  also have "\<dots> = [c0]" using assms(1)
    by (induction n) (auto simp: less_Suc_eq)
  finally show ?thesis .
qed

lemma linked_iff_Set:
  assumes W: "wf s"
  shows "linked s a \<longleftrightarrow> state (alarms s a) = OSAlarmState_Set"
proof
  assume "linked s a"
  then have "queues_of s a \<noteq> []" by (auto simp: linked_def)
  then obtain c where "c \<in> set (queues_of s a)" by (cases "queues_of s a") auto
  then have "a \<in> set (gAlarmQueue s c)" by (simp add: queues_of_def)
  with W show "state (alarms s a) = OSAlarmState_Set" by (rule wfD_member)
next
  assume "state (alarms s a) = OSAlarmState_Set"
  from wfD_Set [OF W this] obtain c0 where c0: "a \<in> set (gAlarmQueue s c0)" by blast
  with W have lt: "c0 < CoreCount" by (rule wfD_core)
  have "queues_of s a = [c0]"
    unfolding queues_of_def
    using lt
  proof (rule length_filter_upt_unique)
    fix c show "a \<in> set (gAlarmQueue s c) \<longleftrightarrow> c = c0"
      using c0 wfD_unique [OF W c0, of c] by auto
  qed
  then show "linked s a" by (simp add: linked_def)
qed

lemma idle_cancel_nolock: "idle a s \<Longrightarrow> idle a (snd (OSCancelAlarmNoLock b s))"
  by (simp add: idle_def cancel_nolock_alarms cancelled_def)

lemma idle_after_cancel:
  "state (alarms s a) \<noteq> OSAlarmState_Set \<longrightarrow> period (alarms s a) = 0 \<Longrightarrow>
   idle a (snd (OSCancelAlarm a s))"
  by (cases "state (alarms s a) = OSAlarmState_Set")
     (simp_all add: idle_def cancel_ok cancel_fail cancelled_def)

lemma idle_trigger:
  assumes I: "idle a s" and T: "OSTriggerAlarmNoLock b ctx s = Inr s'"
  shows "idle a s'"
  using I by (auto simp: idle_def trigger_Inr(1) [OF T] fired_def split: if_splits)

lemma idle_exec:
  assumes I: "idle a s" and N: "\<not> arms a c" and E: "exec c s = Inr s'"
  shows "idle a s'"
proof (cases c)
  case (Call_CreateAlarmEx b nm)
  with E I show ?thesis by (auto simp: idle_def create_fields zero_OSAlarm_def split: if_splits)
next
  case (Call_SetAlarm core b d cb)
  with E I N show ?thesis by (auto simp: idle_def set_alarm_fields split: if_splits)
next
  case (Call_SetPeriodicAlarm core b st iv cb)
  with E I N show ?thesis by (auto simp: idle_def arm_fields(2) split: if_splits)
next
  case (Call_CancelAlarm b)
  with E have "s' = snd (OSCancelAlarm b s)" by simp
  with I show ?thesis
    by (cases "state (alarms s b) = OSAlarmState_Set")
       (auto simp: idle_def cancel_ok cancel_fail cancelled_def split: if_splits)
next
  case (Call_CancelAlarms t)
  have "idle a (OSCancelAlarms t s)"
    by (rule OSCancelAlarms_inv [where P = "idle a"])
       (simp_all add: idle_cancel_nolock I, simp add: idle_def emit_def)
  with E Call_CancelAlarms show ?thesis by simp
next
  case (Call_SetAlarmTag b t)
  with E I show ?thesis by (auto simp: idle_def OSSetAlarmTag_def prim_defs split: if_splits)
next
  case (Call_SetAlarmUserData b d)
  with E I show ?thesis by (auto simp: idle_def OSSetAlarmUserData_def prim_defs split: if_splits)
next
  case (Call_GetAlarmUserData b)
  with E I show ?thesis by (auto simp: OSGetAlarmUserData_def)
next
  case (Call_CheckAlarms core ctx)
  with E have C: "OSCheckAlarms core ctx s = Inr s'" by simp
  from C obtain n' s3 where
    L: "check_loop ctx (clock s (reads s)) (gAlarmQueue s core) TimePoint_max (check_start s) = Inr (n', s3)"
    and F: "alarms s' = alarms s3"
    by (rule OSCheckAlarms_Inr)
  have I0: "idle a (check_start s)" using I by (simp add: idle_def)
  have "idle a s3"
  proof (rule check_loop_inv [where P = "idle a", OF _ I0 L])
    fix b and sa s1 :: kernel
    assume "idle a sa" "OSTriggerAlarmNoLock b ctx sa = Inr s1"
    then show "idle a s1" by (rule idle_trigger)
  qed
  with F show ?thesis by (simp add: idle_def)
next
  case (Call_WaitAlarm_enter t b)
  with E obtain r where W: "OSWaitAlarm_enter t b s = Inr (r, s')"
    by (auto split: sum.splits)
  from I show ?thesis by (simp add: idle_def wait_enter_Inr [OF W])
next
  case (Call_WaitAlarm_resume b)
  with E I show ?thesis by (auto simp: idle_def OSWaitAlarm_resume_def prim_defs Let_def)
qed

lemma idle_run:
  "idle a s \<Longrightarrow> \<forall>c \<in> set cs. \<not> arms a c \<Longrightarrow> run cs s = Inr s' \<Longrightarrow> idle a s'"
proof (induction cs arbitrary: s)
  case Nil
  then show ?case by simp
next
  case (Cons c cs)
  from Cons.prems(3) obtain s1 where E: "exec c s = Inr s1" and R: "run cs s1 = Inr s'"
    by (auto split: sum.splits)
  from Cons.prems(2) have N: "\<not> arms a c" and Ns: "\<forall>c \<in> set cs. \<not> arms a c" by simp_all
  from idle_exec [OF Cons.prems(1) N E] have "idle a s1" .
  from Cons.IH [OF this Ns R] show ?case .
qed

lemma wait_enter_not_Set:
  "tag (alarms s a) = OSAlarm_Tag \<Longrightarrow> state (alarms s a) \<noteq> OSAlarmState_Set \<Longrightarrow>
   OSWaitAlarm_enter t a s =
     Inr (Some False, s\<lparr>trace := trace s @ [Scheduler_Lock, AlarmLock_Acquire,
                                               AlarmLock_Release, Scheduler_Unlock]\<rparr>)"
  by (simp add: OSWaitAlarm_enter_def prim_defs Let_def)

subsection \<open>The example states\<close>

lemma periodic1_eq:
  "periodic1 = \<lparr>alarms = (\<lambda>a. zero_OSAlarm)(1 := zero_OSAlarm\<lparr>tag := OSAlarm_Tag,
        state := OSAlarmState_Set, nextFire := 50, period := 10, alarmQueue := Some 0,
        threadQueue := [7]\<rparr>),
      gAlarmQueue = (\<lambda>c. [])(0 := [1]), waiting = {7},
      interruptTimer = (\<lambda>c. TimePoint_max)(0 := TimePoint 50),
      clock = (\<lambda>k. 100 + 5 * of_nat k), reads = 0,
      trace = [AlarmLock_Acquire, Queue_Append 0 1, AlarmLock_Release, Scheduler_Lock,
               AlarmLock_Acquire, Thread_Sleep 7 1, AlarmLock_Release, Reschedule 7]\<rparr>"
  by (simp add: periodic1_def run_defs)


lemma tagged3_alarms:
  "alarms tagged3 = (\<lambda>a. zero_OSAlarm)
     (1 := zero_OSAlarm\<lparr>tag := OSAlarm_Tag, alarmTag := 7, state := OSAlarmState_Set,
            nextFire := 150, alarmQueue := Some 0\<rparr>,
      2 := zero_OSAlarm\<lparr>tag := OSAlarm_Tag, alarmTag := 7, state := OSAlarmState_Set,
            nextFire := 160, alarmQueue := Some 1\<rparr>,
      3 := zero_OSAlarm\<lparr>tag := OSAlarm_Tag, alarmTag := 9, state := OSAlarmState_Set,
            nextFire := 170, alarmQueue := Some 2\<rparr>)"
  by (simp add: tagged3_def run_defs)

lemma tagged3_queue: "gAlarmQueue tagged3 = (\<lambda>c. [])(0 := [1], 1 := [2], 2 := [3])"
  by (simp add: tagged3_def run_defs)

lemma wf_tagged3: "wf tagged3"
proof (rule wfI)
  fix a assume "state (alarms tagged3 a) = OSAlarmState_Set"
  then have "a = 1 \<or> a = 2 \<or> a = 3"
    by (auto simp: tagged3_alarms zero_OSAlarm_def split: if_splits)
  then have "a \<in> set (gAlarmQueue tagged3 0) \<or> a \<in> set (gAlarmQueue tagged3 1)
      \<or> a \<in> set (gAlarmQueue tagged3 2)"
    by (auto simp: tagged3_queue)
  then show "\<exists>c. a \<in> set (gAlarmQueue tagged3 c)" by blast
qed (auto simp: tagged3_alarms tagged3_queue zero_OSAlarm_def CoreCount_def split: if_splits)






lemma periodic1_run:
  "run [Call_CreateAlarmEx 1 0, Call_SetPeriodicAlarm 0 1 50 10 0, Call_WaitAlarm_enter 7 1] boot
     = Inr periodic1"
proof -
  have "\<not> isl (run [Call_CreateAlarmEx 1 0, Call_SetPeriodicAlarm 0 1 50 10 0,
                     Call_WaitAlarm_enter 7 1] boot)"
    by (simp add: run_defs)
  then show ?thesis by (simp add: periodic1_def)
qed

lemma periodic1_admissible:
  "admissible [Call_CreateAlarmEx 1 0, Call_SetPeriodicAlarm 0 1 50 10 0,
               Call_WaitAlarm_enter 7 1] boot"
  by (simp add: run_defs queues_of_def CoreCount_def)

lemma after_cancel_run:
  "run [Call_CheckAlarms 0 9, Call_SetAlarmTag 1 5] (snd (OSCancelAlarm 1 armed1)) = Inr after_cancel"
proof -
  have "\<not> isl (run [Call_CheckAlarms 0 9, Call_SetAlarmTag 1 5] (snd (OSCancelAlarm 1 armed1)))"
    by (simp add: armed1_def OSCreateAlarm_def OSCancelAlarm_def OSCancelAlarmNoLock_def
        OSCheckAlarms_def run_defs)
  then show ?thesis by (simp add: after_cancel_def)
qed

lemma after_cancel_tag: "tag (alarms after_cancel 1) = OSAlarm_Tag"
  by (simp add: after_cancel_def armed1_def OSCreateAlarm_def OSCancelAlarm_def
      OSCancelAlarmNoLock_def OSCheckAlarms_def run_defs)




section \<open>The claims\<close>

subsection \<open>C1: firing\<close>




subsection \<open>C2: cancelling an alarm\<close>

text \<open>
  C2. \<^verbatim>\<open>OSCancelAlarm\<close> returns FALSE and changes nothing but the trace of lock calls
  unless the state of the alarm is Set. When it is Set, the call returns TRUE, the state
  becomes Cancelled, fire time and period are cleared, the alarm is erased from the queue
  its back-reference names (in a well-formed state it is then in no queue), its thread
  queue is empty and none of the threads that were in it is still suspended. A second
  cancel returns FALSE and leaves alarms and queues as they are.
\<close>

theorem OSCancelAlarm_contract:
  "(state (alarms s a) \<noteq> OSAlarmState_Set \<longrightarrow>
      OSCancelAlarm a s = (False, s\<lparr>trace := trace s @ [AlarmLock_Acquire, AlarmLock_Release]\<rparr>))
 \<and> (state (alarms s a) = OSAlarmState_Set \<longrightarrow>
      fst (OSCancelAlarm a s) = True
    \<and> state (alarms (snd (OSCancelAlarm a s)) a) = OSAlarmState_Cancelled
    \<and> nextFire (alarms (snd (OSCancelAlarm a s)) a) = 0
    \<and> period (alarms (snd (OSCancelAlarm a s)) a) = 0
    \<and> (\<forall>q. alarmQueue (alarms s a) = Some q \<longrightarrow> a \<notin> set (gAlarmQueue (snd (OSCancelAlarm a s)) q))
    \<and> (wf s \<longrightarrow> (\<forall>c. a \<notin> set (gAlarmQueue (snd (OSCancelAlarm a s)) c)))
    \<and> threadQueue (alarms (snd (OSCancelAlarm a s)) a) = []
    \<and> (\<forall>t \<in> set (threadQueue (alarms s a)). t \<notin> waiting (snd (OSCancelAlarm a s)))
    \<and> fst (OSCancelAlarm a (snd (OSCancelAlarm a s))) = False
    \<and> alarms (snd (OSCancelAlarm a (snd (OSCancelAlarm a s)))) = alarms (snd (OSCancelAlarm a s))
    \<and> gAlarmQueue (snd (OSCancelAlarm a (snd (OSCancelAlarm a s))))
        = gAlarmQueue (snd (OSCancelAlarm a s)))"
proof (intro conjI impI)
  assume "state (alarms s a) \<noteq> OSAlarmState_Set"
  then show "OSCancelAlarm a s = (False, s\<lparr>trace := trace s @ [AlarmLock_Acquire, AlarmLock_Release]\<rparr>)"
    by (rule cancel_fail)
next
  assume A: "state (alarms s a) = OSAlarmState_Set"
  note ok = cancel_ok [OF A]
  have st: "state (alarms (snd (OSCancelAlarm a s)) a) \<noteq> OSAlarmState_Set"
    by (simp add: ok cancelled_def)
  show "fst (OSCancelAlarm a s) = True" by (simp add: ok)
  show "state (alarms (snd (OSCancelAlarm a s)) a) = OSAlarmState_Cancelled"
    by (simp add: ok cancelled_def)
  show "nextFire (alarms (snd (OSCancelAlarm a s)) a) = 0" by (simp add: ok cancelled_def)
  show "period (alarms (snd (OSCancelAlarm a s)) a) = 0" by (simp add: ok cancelled_def)
  show "\<forall>q. alarmQueue (alarms s a) = Some q \<longrightarrow> a \<notin> set (gAlarmQueue (snd (OSCancelAlarm a s)) q)"
    by (simp add: ok)
  show "threadQueue (alarms (snd (OSCancelAlarm a s)) a) = []" by (simp add: ok cancelled_def)
  show "\<forall>t \<in> set (threadQueue (alarms s a)). t \<notin> waiting (snd (OSCancelAlarm a s))"
    by (simp add: ok)
  show "fst (OSCancelAlarm a (snd (OSCancelAlarm a s))) = False" by (simp add: cancel_fail [OF st])
  show "alarms (snd (OSCancelAlarm a (snd (OSCancelAlarm a s)))) = alarms (snd (OSCancelAlarm a s))"
    by (simp add: cancel_fail [OF st])
  show "gAlarmQueue (snd (OSCancelAlarm a (snd (OSCancelAlarm a s))))
         = gAlarmQueue (snd (OSCancelAlarm a s))"
    by (simp add: cancel_fail [OF st])
  show "\<forall>c. a \<notin> set (gAlarmQueue (snd (OSCancelAlarm a s)) c)" if W: "wf s"
  proof -
    have "state (alarms (snd (OSCancelAlarm a s)) a) \<noteq> OSAlarmState_Set" by (rule st)
    with wf_cancel [OF W, of a] show ?thesis by (simp add: wf_def)
  qed
qed

theorem OSCancelAlarm_contract_witness:
  "state (alarms armed1 2) \<noteq> OSAlarmState_Set
 \<and> fst (OSCancelAlarm 2 armed1) = False
 \<and> state (alarms armed1 1) = OSAlarmState_Set \<and> wf armed1
 \<and> alarmQueue (alarms armed1 1) = Some 0
 \<and> fst (OSCancelAlarm 1 armed1) = True
 \<and> state (alarms (snd (OSCancelAlarm 1 armed1)) 1) = OSAlarmState_Cancelled
 \<and> 1 \<notin> set (gAlarmQueue (snd (OSCancelAlarm 1 armed1)) 0)
 \<and> fst (OSCancelAlarm 1 (snd (OSCancelAlarm 1 armed1))) = False"
  using OSCancelAlarm_contract [of armed1 2] OSCancelAlarm_contract [of armed1 1] wf_armed1
  by (simp add: armed1_alarms zero_OSAlarm_def)

subsection \<open>C3: waiting\<close>

text \<open>
  C3. On an initialised alarm (one that carries the tag) whose state is not Set,
  \<^verbatim>\<open>OSWaitAlarm\<close> returns FALSE before its suspension point: the trace gains the two
  lock pairs, and nothing else changes, so the caller is not suspended. On one whose state
  is Set it suspends the caller on the thread queue of the alarm. When the thread runs
  again, the return value is TRUE exactly if the state then read is not Cancelled. After a
  call of \<^verbatim>\<open>OSCancelAlarm\<close> in a well-formed state, and after any further calls none of
  which arms the alarm, a wait on the alarm returns FALSE before its suspension point.
\<close>

theorem OSWaitAlarm_contract:
  "(tag (alarms s a) = OSAlarm_Tag \<longrightarrow> state (alarms s a) \<noteq> OSAlarmState_Set \<longrightarrow>
      OSWaitAlarm_enter t a s =
        Inr (Some False, s\<lparr>trace := trace s @ [Scheduler_Lock, AlarmLock_Acquire,
                                                  AlarmLock_Release, Scheduler_Unlock]\<rparr>))
 \<and> (tag (alarms s1 a) = OSAlarm_Tag \<longrightarrow> state (alarms s1 a) = OSAlarmState_Set \<longrightarrow>
      (\<exists>s'. OSWaitAlarm_enter t a s1 = Inr (None, s')
            \<and> t \<in> waiting s' \<and> t \<in> set (threadQueue (alarms s' a))
            \<and> state (alarms s' a) = OSAlarmState_Set))
 \<and> (fst (OSWaitAlarm_resume a s2) \<longleftrightarrow> state (alarms s2 a) \<noteq> OSAlarmState_Cancelled)
 \<and> (wf s3 \<longrightarrow> run cs (snd (OSCancelAlarm a s3)) = Inr s4 \<longrightarrow> (\<forall>c \<in> set cs. \<not> arms a c) \<longrightarrow>
      tag (alarms s4 a) = OSAlarm_Tag \<longrightarrow>
      OSWaitAlarm_enter t a s4 =
        Inr (Some False, s4\<lparr>trace := trace s4 @ [Scheduler_Lock, AlarmLock_Acquire,
                                                    AlarmLock_Release, Scheduler_Unlock]\<rparr>))"
proof (intro conjI impI)
  assume "tag (alarms s a) = OSAlarm_Tag" "state (alarms s a) \<noteq> OSAlarmState_Set"
  then show "OSWaitAlarm_enter t a s =
        Inr (Some False, s\<lparr>trace := trace s @ [Scheduler_Lock, AlarmLock_Acquire,
                                                  AlarmLock_Release, Scheduler_Unlock]\<rparr>)"
    by (rule wait_enter_not_Set)
next
  assume "tag (alarms s1 a) = OSAlarm_Tag" "state (alarms s1 a) = OSAlarmState_Set"
  then show "\<exists>s'. OSWaitAlarm_enter t a s1 = Inr (None, s')
            \<and> t \<in> waiting s' \<and> t \<in> set (threadQueue (alarms s' a))
            \<and> state (alarms s' a) = OSAlarmState_Set"
    by (simp add: OSWaitAlarm_enter_def prim_defs Let_def)
next
  show "fst (OSWaitAlarm_resume a s2) \<longleftrightarrow> state (alarms s2 a) \<noteq> OSAlarmState_Cancelled"
    by (simp add: OSWaitAlarm_resume_def prim_defs Let_def)
next
  assume W: "wf s3" and R: "run cs (snd (OSCancelAlarm a s3)) = Inr s4"
    and N: "\<forall>c \<in> set cs. \<not> arms a c" and T: "tag (alarms s4 a) = OSAlarm_Tag"
  have "idle a (snd (OSCancelAlarm a s3))"
    using wfD_idle [OF W, of a] by (intro idle_after_cancel) simp
  from idle_run [OF this N R] have "state (alarms s4 a) \<noteq> OSAlarmState_Set" by (simp add: idle_def)
  with T show "OSWaitAlarm_enter t a s4 =
        Inr (Some False, s4\<lparr>trace := trace s4 @ [Scheduler_Lock, AlarmLock_Acquire,
                                                    AlarmLock_Release, Scheduler_Unlock]\<rparr>)"
    by (rule wait_enter_not_Set)
qed

theorem OSWaitAlarm_contract_witness:
  "tag (alarms (OSCreateAlarm 1 boot) 1) = OSAlarm_Tag
   \<and> state (alarms (OSCreateAlarm 1 boot) 1) \<noteq> OSAlarmState_Set
   \<and> (\<exists>s'. OSWaitAlarm_enter 7 1 (OSCreateAlarm 1 boot) = Inr (Some False, s'))
   \<and> tag (alarms armed1 1) = OSAlarm_Tag \<and> state (alarms armed1 1) = OSAlarmState_Set
   \<and> (\<exists>s'. OSWaitAlarm_enter 7 1 armed1 = Inr (None, s') \<and> 7 \<in> waiting s')
   \<and> wf armed1
   \<and> run [Call_CheckAlarms 0 9, Call_SetAlarmTag 1 5] (snd (OSCancelAlarm 1 armed1))
        = Inr after_cancel
   \<and> tag (alarms after_cancel 1) = OSAlarm_Tag
   \<and> (\<exists>s'. OSWaitAlarm_enter 7 1 after_cancel = Inr (Some False, s'))"
  using OSWaitAlarm_contract [of "OSCreateAlarm 1 boot" 1 7 armed1 armed1 armed1
      "[Call_CheckAlarms 0 9, Call_SetAlarmTag 1 5]" after_cancel]
    wf_armed1 after_cancel_run after_cancel_tag
  by (auto simp add: armed1_alarms boot_def OSCreateAlarm_def OSCreateAlarmEx_def prim_defs
      zero_OSAlarm_def)

subsection \<open>C4: the timer after a scan\<close>




subsection \<open>C5: cancelling by tag\<close>

text \<open>
  C5. In a well-formed state \<^verbatim>\<open>OSCancelAlarms\<close> cancels exactly the alarms in state Set
  whose tag is the one given, in the queues of all cores: the record of such an alarm
  becomes what \<^verbatim>\<open>OSCancelAlarm\<close> would make of it, the alarm is in no queue and its
  waiters are no longer suspended. Every other alarm keeps its record and its queue
  membership. The trace gains one acquire and one release of the alarm lock.
\<close>

theorem OSCancelAlarms_contract:
  assumes W: "wf s"
  shows "(state (alarms s a) = OSAlarmState_Set \<and> alarmTag (alarms s a) = t \<longrightarrow>
            alarms (OSCancelAlarms t s) a = cancelled (alarms s a)
          \<and> alarms (snd (OSCancelAlarm a s)) a = cancelled (alarms s a)
          \<and> (\<forall>c. a \<notin> set (gAlarmQueue (OSCancelAlarms t s) c))
          \<and> (\<forall>th \<in> set (threadQueue (alarms s a)). th \<notin> waiting (OSCancelAlarms t s)))
       \<and> (\<not> (state (alarms s a) = OSAlarmState_Set \<and> alarmTag (alarms s a) = t) \<longrightarrow>
            alarms (OSCancelAlarms t s) a = alarms s a
          \<and> (\<forall>c. a \<in> set (gAlarmQueue (OSCancelAlarms t s) c) \<longleftrightarrow> a \<in> set (gAlarmQueue s c)))
       \<and> lock_events (trace (OSCancelAlarms t s))
           = lock_events (trace s) @ [AlarmLock_Acquire, AlarmLock_Release]
       \<and> wf (OSCancelAlarms t s)"
proof (intro conjI impI)
  let ?s' = "OSCancelAlarms t s"
  note R = OSCancelAlarms_rel [of t s a, unfolded cancel_rel_def]
  show W': "wf ?s'" using W by (rule wf_OSCancelAlarms)
  show "lock_events (trace ?s') = lock_events (trace s) @ [AlarmLock_Acquire, AlarmLock_Release]"
    by (rule OSCancelAlarms_lock_events)
  {
    assume A: "state (alarms s a) = OSAlarmState_Set \<and> alarmTag (alarms s a) = t"
    with OSCancelAlarms_complete [OF W, of a t]
    have N: "state (alarms ?s' a) \<noteq> OSAlarmState_Set" by simp
    with A R have C: "alarms ?s' a = cancelled (alarms s a)"
      and D: "set (threadQueue (alarms s a)) \<inter> waiting ?s' = {}" by auto
    show "alarms ?s' a = cancelled (alarms s a)" by (rule C)
    show "alarms (snd (OSCancelAlarm a s)) a = cancelled (alarms s a)"
      using A by (simp add: cancel_ok)
    show "\<forall>c. a \<notin> set (gAlarmQueue ?s' c)" using W' N by (simp add: wf_def)
    show "\<forall>th \<in> set (threadQueue (alarms s a)). th \<notin> waiting ?s'" using D by blast
  }
  {
    assume A: "\<not> (state (alarms s a) = OSAlarmState_Set \<and> alarmTag (alarms s a) = t)"
    with R show E: "alarms ?s' a = alarms s a" by auto
    show "\<forall>c. a \<in> set (gAlarmQueue ?s' c) \<longleftrightarrow> a \<in> set (gAlarmQueue s c)"
    proof (intro allI iffI)
      fix c assume "a \<in> set (gAlarmQueue ?s' c)"
      with OSCancelAlarms_subset show "a \<in> set (gAlarmQueue s c)" by blast
    next
      fix c assume m: "a \<in> set (gAlarmQueue s c)"
      with W have "state (alarms s a) = OSAlarmState_Set" by (rule wfD_member)
      with E have "state (alarms ?s' a) = OSAlarmState_Set" by simp
      from wfD_Set [OF W' this] obtain c' where c': "a \<in> set (gAlarmQueue ?s' c')" by blast
      with OSCancelAlarms_subset have "a \<in> set (gAlarmQueue s c')" by blast
      with m W have "c' = c" by (auto dest: wfD_unique)
      with c' show "a \<in> set (gAlarmQueue ?s' c)" by simp
    qed
  }
qed

theorem OSCancelAlarms_contract_witness:
  "wf tagged3
   \<and> state (alarms tagged3 1) = OSAlarmState_Set \<and> alarmTag (alarms tagged3 1) = 7
   \<and> state (alarms tagged3 2) = OSAlarmState_Set \<and> alarmTag (alarms tagged3 2) = 7
   \<and> state (alarms tagged3 3) = OSAlarmState_Set \<and> alarmTag (alarms tagged3 3) = 9
   \<and> state (alarms (OSCancelAlarms 7 tagged3) 1) = OSAlarmState_Cancelled
   \<and> state (alarms (OSCancelAlarms 7 tagged3) 2) = OSAlarmState_Cancelled
   \<and> 2 \<notin> set (gAlarmQueue (OSCancelAlarms 7 tagged3) 1)
   \<and> state (alarms (OSCancelAlarms 7 tagged3) 3) = OSAlarmState_Set
   \<and> 3 \<in> set (gAlarmQueue (OSCancelAlarms 7 tagged3) 2)"
  using OSCancelAlarms_contract [OF wf_tagged3, of 1 7]
    OSCancelAlarms_contract [OF wf_tagged3, of 2 7]
    OSCancelAlarms_contract [OF wf_tagged3, of 3 7] wf_tagged3
  by (simp add: tagged3_alarms tagged3_queue zero_OSAlarm_def cancelled_def)

subsection \<open>C6: arming\<close>



subsection \<open>C7: queue membership and state\<close>

text \<open>
  C7 as stated fails: \<^verbatim>\<open>OSCreateAlarmEx\<close> clears the record and does not touch the
  queues. Created again while it is armed, alarm 1 is still a member of the queue of
  core 0, and its state is None.
\<close>

theorem create_leaves_alarm_linked:
  "\<not> isl (run [Call_CreateAlarmEx 1 0, Call_SetPeriodicAlarm 0 1 150 0 0,
               Call_CreateAlarmEx 1 0] boot)
   \<and> linked (projr (run [Call_CreateAlarmEx 1 0, Call_SetPeriodicAlarm 0 1 150 0 0,
                         Call_CreateAlarmEx 1 0] boot)) 1
   \<and> state (alarms (projr (run [Call_CreateAlarmEx 1 0, Call_SetPeriodicAlarm 0 1 150 0 0,
                                Call_CreateAlarmEx 1 0] boot)) 1) = OSAlarmState_None"
  by (simp add: run_defs linked_def queues_of_def CoreCount_def upt_rec)

text \<open>
  C7, amended. Start from a well-formed state (start-up with zeroed alarm storage is one)
  and run any sequence of calls of the facility in which every core number is the number
  of a core and an alarm is created only while it is in no queue. If the sequence runs to
  its end, then every alarm is linked into exactly one per-core queue if and only if its
  state is Set, and the fire time of an alarm whose state is not Set is 0.
\<close>

theorem linked_iff_Set_along_histories:
  assumes "wf s" and "admissible cs s" and "run cs s = Inr s'"
  shows "(linked s' a \<longleftrightarrow> state (alarms s' a) = OSAlarmState_Set)
       \<and> (state (alarms s' a) \<noteq> OSAlarmState_Set \<longrightarrow> nextFire (alarms s' a) = 0)"
proof -
  from assms have W: "wf s'" by (rule wf_run)
  from linked_iff_Set [OF W] wfD_idle [OF W] show ?thesis by blast
qed

theorem linked_iff_Set_along_histories_witness:
  "wf boot
   \<and> admissible [Call_CreateAlarmEx 1 0, Call_SetPeriodicAlarm 0 1 50 10 0,
                 Call_WaitAlarm_enter 7 1] boot
   \<and> run [Call_CreateAlarmEx 1 0, Call_SetPeriodicAlarm 0 1 50 10 0,
          Call_WaitAlarm_enter 7 1] boot = Inr periodic1
   \<and> linked periodic1 1 \<and> state (alarms periodic1 1) = OSAlarmState_Set
   \<and> \<not> linked periodic1 2 \<and> state (alarms periodic1 2) \<noteq> OSAlarmState_Set
   \<and> nextFire (alarms periodic1 2) = 0"
  using linked_iff_Set_along_histories [OF wf_boot periodic1_admissible periodic1_run, of 1]
    linked_iff_Set_along_histories [OF wf_boot periodic1_admissible periodic1_run, of 2]
    wf_boot periodic1_admissible periodic1_run
  by (simp add: periodic1_eq zero_OSAlarm_def)

subsection \<open>C8: validation of the identity tag\<close>

text \<open>
  C8. Every public entry point is to fail fast on an alarm whose tag is not the sentinel.
  Only \<^verbatim>\<open>OSWaitAlarm\<close> asserts it. On the zeroed record at address 1, whose tag is 0,
  \<^verbatim>\<open>OSSetPeriodicAlarm\<close> returns TRUE and links the record into the queue of core 0, and
  \<^verbatim>\<open>OSCancelAlarm\<close> then returns TRUE, while \<^verbatim>\<open>OSWaitAlarm\<close> on the same record stops at
  its assertion.
\<close>

theorem identity_tag_checked_by_OSWaitAlarm_only:
  "tag (alarms boot 1) \<noteq> OSAlarm_Tag
   \<and> fst (OSSetPeriodicAlarm 0 1 150 0 0 boot) = True
   \<and> gAlarmQueue (snd (OSSetPeriodicAlarm 0 1 150 0 0 boot)) 0 = [1]
   \<and> fst (OSCancelAlarm 1 (snd (OSSetPeriodicAlarm 0 1 150 0 0 boot))) = True
   \<and> OSWaitAlarm_enter 7 1 (snd (OSSetPeriodicAlarm 0 1 150 0 0 boot)) = Inl AssertionFailed"
  by (simp add: boot_def zero_OSAlarm_def OSAlarm_Tag_def OSSetPeriodicAlarm_def OSCancelAlarm_def
      OSCancelAlarmNoLock_def OSWaitAlarm_enter_def prim_defs Let_def)

subsection \<open>C9: the accessors\<close>

text \<open>
  C9. The three accessors are to hold the alarm lock. \<^verbatim>\<open>OSSetAlarmTag\<close> and
  \<^verbatim>\<open>OSSetAlarmUserData\<close> acquire and release it around the store;
  \<^verbatim>\<open>OSGetAlarmUserData\<close> reads the field without any call on the lock: it leaves the
  whole state, trace included, as it was.
\<close>

theorem OSGetAlarmUserData_takes_no_lock:
  "snd (OSGetAlarmUserData a s) = s
   \<and> fst (OSGetAlarmUserData a s) = userData (alarms s a)
   \<and> lock_events (trace (snd (OSGetAlarmUserData a s))) = lock_events (trace s)
   \<and> lock_events (trace (OSSetAlarmUserData a d s))
       = lock_events (trace s) @ [AlarmLock_Acquire, AlarmLock_Release]
   \<and> lock_events (trace (OSSetAlarmTag a t s))
       = lock_events (trace s) @ [AlarmLock_Acquire, AlarmLock_Release]"
  by (simp add: OSGetAlarmUserData_def OSSetAlarmUserData_def OSSetAlarmTag_def prim_defs
      lock_events_def)

text \<open>The frame of the accessors: a setter changes the one field of the one alarm, and
  nothing else but the trace.\<close>

lemma OSSetAlarmTag_frame:
  "alarms (OSSetAlarmTag a t s) = (alarms s)(a := (alarms s a)\<lparr>alarmTag := t\<rparr>)
   \<and> gAlarmQueue (OSSetAlarmTag a t s) = gAlarmQueue s
   \<and> waiting (OSSetAlarmTag a t s) = waiting s
   \<and> interruptTimer (OSSetAlarmTag a t s) = interruptTimer s"
  by (simp add: OSSetAlarmTag_def prim_defs)

lemma OSSetAlarmUserData_frame:
  "alarms (OSSetAlarmUserData a d s) = (alarms s)(a := (alarms s a)\<lparr>userData := d\<rparr>)
   \<and> gAlarmQueue (OSSetAlarmUserData a d s) = gAlarmQueue s
   \<and> waiting (OSSetAlarmUserData a d s) = waiting s
   \<and> interruptTimer (OSSetAlarmUserData a d s) = interruptTimer s"
  by (simp add: OSSetAlarmUserData_def prim_defs)

subsection \<open>C10: the back-reference after an unlink\<close>

text \<open>
  C10. A successful cancel and a one-shot fire erase the alarm from the queue that its
  back-reference \<^verbatim>\<open>alarmQueue\<close> names and leave the back-reference as it is. The next
  \<^verbatim>\<open>OSSetPeriodicAlarm\<close> on the alarm therefore calls the erase on that queue, of which
  the alarm is no longer a member, before it appends the alarm to the queue of its core.
\<close>

theorem alarmQueue_stale_after_unlink:
  "(state (alarms s a) = OSAlarmState_Set \<longrightarrow> alarmQueue (alarms s a) = Some q \<longrightarrow>
      fst (OSCancelAlarm a s) = True
    \<and> alarmQueue (alarms (snd (OSCancelAlarm a s)) a) = Some q
    \<and> a \<notin> set (gAlarmQueue (snd (OSCancelAlarm a s)) q)
    \<and> trace (snd (OSSetPeriodicAlarm core a st iv cb (snd (OSCancelAlarm a s))))
        = trace (snd (OSCancelAlarm a s))
            @ [AlarmLock_Acquire, Queue_Erase q a, Queue_Append core a, AlarmLock_Release])
 \<and> (period (alarms s1 a) = 0 \<longrightarrow> alarmQueue (alarms s1 a) = Some q \<longrightarrow>
      (\<exists>s2. OSTriggerAlarmNoLock a ctx s1 = Inr s2
         \<and> state (alarms s2 a) = OSAlarmState_None
         \<and> alarmQueue (alarms s2 a) = Some q
         \<and> a \<notin> set (gAlarmQueue s2 q)
         \<and> trace (snd (OSSetPeriodicAlarm core a st iv cb s2))
             = trace s2 @ [AlarmLock_Acquire, Queue_Erase q a, Queue_Append core a, AlarmLock_Release]))"
proof (intro conjI impI)
  assume A: "state (alarms s a) = OSAlarmState_Set" and Q: "alarmQueue (alarms s a) = Some q"
  note ok = cancel_ok [OF A]
  show "fst (OSCancelAlarm a s) = True" by (simp add: ok)
  show q': "alarmQueue (alarms (snd (OSCancelAlarm a s)) a) = Some q"
    by (simp add: ok cancelled_def Q)
  show "a \<notin> set (gAlarmQueue (snd (OSCancelAlarm a s)) q)" by (simp add: ok Q)
  show "trace (snd (OSSetPeriodicAlarm core a st iv cb (snd (OSCancelAlarm a s))))
        = trace (snd (OSCancelAlarm a s))
            @ [AlarmLock_Acquire, Queue_Erase q a, Queue_Append core a, AlarmLock_Release]"
    by (simp add: arm_fields q')
next
  assume P: "period (alarms s1 a) = 0" and Q: "alarmQueue (alarms s1 a) = Some q"
  from trigger_ok [OF Q, of ctx] obtain s2 where T: "OSTriggerAlarmNoLock a ctx s1 = Inr s2"
    and A: "alarms s2 = (alarms s1)(a := fired ctx (clock s1 (reads s1)) (alarms s1 a))"
    and G: "gAlarmQueue s2 = (if period (alarms s1 a) \<noteq> 0 then gAlarmQueue s1
                         else (gAlarmQueue s1)(q := removeAll a (gAlarmQueue s1 q)))"
    by blast
  have q': "alarmQueue (alarms s2 a) = Some q" by (simp add: A fired_def Q)
  have "state (alarms s2 a) = OSAlarmState_None" by (simp add: A fired_def P)
  moreover have "a \<notin> set (gAlarmQueue s2 q)" by (simp add: G P)
  moreover have "trace (snd (OSSetPeriodicAlarm core a st iv cb s2))
             = trace s2 @ [AlarmLock_Acquire, Queue_Erase q a, Queue_Append core a, AlarmLock_Release]"
    by (simp add: arm_fields q')
  ultimately show "\<exists>s2. OSTriggerAlarmNoLock a ctx s1 = Inr s2
         \<and> state (alarms s2 a) = OSAlarmState_None
         \<and> alarmQueue (alarms s2 a) = Some q
         \<and> a \<notin> set (gAlarmQueue s2 q)
         \<and> trace (snd (OSSetPeriodicAlarm core a st iv cb s2))
             = trace s2 @ [AlarmLock_Acquire, Queue_Erase q a, Queue_Append core a, AlarmLock_Release]"
    using T q' by blast
qed

theorem alarmQueue_stale_after_unlink_witness:
  "state (alarms armed1 1) = OSAlarmState_Set \<and> alarmQueue (alarms armed1 1) = Some 0
   \<and> period (alarms armed1 1) = 0
   \<and> alarmQueue (alarms (snd (OSCancelAlarm 1 armed1)) 1) = Some 0
   \<and> 1 \<notin> set (gAlarmQueue (snd (OSCancelAlarm 1 armed1)) 0)
   \<and> trace (snd (OSSetPeriodicAlarm 2 1 300 0 0 (snd (OSCancelAlarm 1 armed1))))
        = trace (snd (OSCancelAlarm 1 armed1))
            @ [AlarmLock_Acquire, Queue_Erase 0 1, Queue_Append 2 1, AlarmLock_Release]
   \<and> (\<exists>s2. OSTriggerAlarmNoLock 1 5 armed1 = Inr s2 \<and> alarmQueue (alarms s2 1) = Some 0
         \<and> 1 \<notin> set (gAlarmQueue s2 0))"
  using alarmQueue_stale_after_unlink [of armed1 1 0 2 300 0 0 armed1 5]
  by (auto simp add: armed1_alarms zero_OSAlarm_def)

end
